theory Spec2Isabelle
  imports Main "HOL-Library.Log_Nat" "HOL-Library.Sublist"
begin

section \<open>Strings, platform tables and messages\<close>

text \<open>
  A Python \<open>str\<close> is a sequence of Unicode code points; it is modelled as a list of
  natural numbers. \<open>lit\<close> turns an ASCII literal into such a sequence.
\<close>

type_synonym ustr = "nat list"

definition lit :: "string \<Rightarrow> ustr" where
  "lit s = map of_char s"

text \<open>
  What the Python library takes from the Unicode character database and from the C
  library is not part of the repository. It is a parameter of the model:
  \<^item> \<open>str_lower\<close> is \<open>str.lower()\<close>;
  \<open>uni_word\<close> says which code points from 128 on the pattern \<open>\w\<close> matches;
  \<^item> \<open>uni_digit\<close> gives the decimal value of the code points from 128 on that \<open>\d\<close>
  matches (category Nd), the value \<open>int()\<close> reads;
  \<^item> \<open>strftime_ymd\<close> is \<open>strftime("%Y-%m-%d")\<close>.
\<close>

record platform =
  str_lower :: "ustr \<Rightarrow> ustr"
  uni_word :: "nat \<Rightarrow> bool"
  uni_digit :: "nat \<Rightarrow> nat option"
  strftime_ymd :: "nat \<times> nat \<times> nat \<Rightarrow> ustr"

record datetime =
  year :: nat
  month :: nat
  day :: nat
  hour :: nat
  minute :: nat

text \<open>The dataclass \<open>Message\<close>; its field \<open>text\<close> is \<open>msg_text\<close> here.\<close>

record message =
  timestamp :: datetime
  sender :: ustr
  msg_text :: ustr

datatype error = ValueError | OverflowError | IndexError | ZeroDivisionError

subsection \<open>The calendar of \<open>datetime\<close>\<close>

definition is_leap :: "nat \<Rightarrow> bool" where
  "is_leap y = (y mod 4 = 0 \<and> (y mod 100 \<noteq> 0 \<or> y mod 400 = 0))"

definition days_in_month :: "nat \<Rightarrow> nat \<Rightarrow> nat" where
  "days_in_month y m =
     (if m = 2 then (if is_leap y then 29 else 28)
      else if m \<in> {4, 6, 9, 11} then 30 else 31)"

definition days_before_year :: "nat \<Rightarrow> nat" where
  "days_before_year y = (let z = y - 1 in z * 365 + z div 4 - z div 100 + z div 400)"

definition days_before_month :: "nat \<Rightarrow> nat \<Rightarrow> nat" where
  "days_before_month y m =
     (if 1 \<le> m \<and> m \<le> 12
      then [0, 31, 59, 90, 120, 151, 181, 212, 243, 273, 304, 334] ! (m - 1)
           + (if 2 < m \<and> is_leap y then 1 else 0)
      else 0)"

definition toordinal :: "datetime \<Rightarrow> nat" where
  "toordinal d = days_before_year (year d) + days_before_month (year d) (month d) + day d"

text \<open>\<open>datetime.weekday()\<close>: Monday is 0, Sunday is 6.\<close>

definition weekday :: "datetime \<Rightarrow> nat" where
  "weekday d = (toordinal d + 6) mod 7"

section \<open>Aggregation (analysis\_utils.py)\<close>

subsection \<open>\<open>Counter\<close>: a dictionary in insertion order\<close>

text \<open>
  A Python dictionary keeps its keys in the order of their first insertion, and
  \<open>max\<close>, \<open>sorted\<close> and \<open>most_common\<close> see the items in that order. A \<open>Counter\<close>
  is therefore an association list: \<open>counts[k] += 1\<close> updates the entry of \<open>k\<close> in
  place, or appends \<open>(k, 1)\<close> when \<open>k\<close> is new.
\<close>

type_synonym 'k counter = "('k \<times> nat) list"

fun counter_incr :: "'k \<Rightarrow> 'k counter \<Rightarrow> 'k counter" where
  "counter_incr k [] = [(k, 1)]"
| "counter_incr k ((k', c) # kvs) =
     (if k = k' then (k', c + 1) # kvs else (k', c) # counter_incr k kvs)"

text \<open>
  \<open>sorted(items, key=..., reverse=True)\<close> is a stable sort by descending key: items
  with equal keys keep their order. \<open>sort_key\<close> is a stable insertion sort, here on
  the negated key.
\<close>

definition sorted_reverse :: "('a \<Rightarrow> nat) \<Rightarrow> 'a list \<Rightarrow> 'a list" where
  "sorted_reverse key xs = sort_key (\<lambda>x. - int (key x)) xs"

text \<open>
  \<open>Counter.most_common(n)\<close> is \<open>heapq.nlargest(n, items, key=count)\<close>, which is
  \<open>sorted(items, key=count, reverse=True)[:n]\<close> for \<open>n \<ge> 0\<close> and the empty list for
  a negative \<open>n\<close>.
\<close>

definition most_common :: "int \<Rightarrow> 'k counter \<Rightarrow> ('k \<times> nat) list" where
  "most_common n c = (if n \<le> 0 then [] else take (nat n) (sorted_reverse snd c))"

subsection \<open>Counts per sender, day, hour and weekday\<close>

definition message_counts :: "message list \<Rightarrow> ustr counter" where
  "message_counts messages = foldl (\<lambda>counts msg. counter_incr (sender msg) counts) [] messages"

definition messages_by_day :: "platform \<Rightarrow> message list \<Rightarrow> ustr counter" where
  "messages_by_day P messages =
     foldl (\<lambda>counts msg.
        let d = timestamp msg; key = strftime_ymd P (year d, month d, day d)
        in counter_incr key counts) [] messages"

definition messages_by_hour :: "message list \<Rightarrow> nat counter" where
  "messages_by_hour messages =
     foldl (\<lambda>counts msg. counter_incr (hour (timestamp msg)) counts) [] messages"

definition messages_by_weekday :: "message list \<Rightarrow> nat counter" where
  "messages_by_weekday messages =
     foldl (\<lambda>counts msg. counter_incr (weekday (timestamp msg)) counts) [] messages"

subsection \<open>Words and emojis\<close>

definition STOPWORDS :: "ustr set" where
  "STOPWORDS = lit ` {''the'', ''and'', ''is'', ''in'', ''to'', ''a'', ''of'', ''for'', ''on'',
     ''with'', ''you'', ''i'', ''it'', ''that'', ''at'', ''this'', ''my'', ''your'', ''me'',
     ''we'', ''our'', ''us'', ''be'', ''as'', ''are'', ''was'', ''were'', ''so'', ''but'',
     ''if'', ''too'', ''not'', ''or'', ''just'', [CHR ''i'', CHR ''t'', CHR 0x27, CHR ''s''],
     ''its'', [CHR ''c'', CHR ''a'', CHR ''n'', CHR 0x27, CHR ''t''], ''dont'', ''do'', ''did'',
     [CHR ''d'', CHR ''i'', CHR ''d'', CHR ''n'', CHR 0x27, CHR ''t''],
     [CHR ''d'', CHR ''o'', CHR ''n'', CHR 0x27, CHR ''t''], ''u'', ''im'', ''lol'', ''haha'',
     ''hahaha''}"

text \<open>
  \<open>findall\<close> with a pattern that is one character class repeated (\<open>[...]+\<close>, and
  \<open>\b\w+\b\<close>, whose word boundaries hold at both ends of a maximal run of word
  characters and nowhere inside) returns the maximal runs of characters of the class,
  from left to right.
\<close>

fun findall_runs :: "(nat \<Rightarrow> bool) \<Rightarrow> ustr \<Rightarrow> ustr \<Rightarrow> ustr list" where
  "findall_runs cls run [] = (if run = [] then [] else [run])"
| "findall_runs cls run (c # cs) =
     (if cls c then findall_runs cls (run @ [c]) cs
      else if run = [] then findall_runs cls [] cs
      else run # findall_runs cls [] cs)"

text \<open>\<open>\w\<close> with \<open>re.UNICODE\<close>: the alphanumeric characters and the underscore.\<close>

definition is_word_char :: "platform \<Rightarrow> nat \<Rightarrow> bool" where
  "is_word_char P c =
     (if c < 128 then (48 \<le> c \<and> c \<le> 57) \<or> (65 \<le> c \<and> c \<le> 90) \<or> c = 95 \<or> (97 \<le> c \<and> c \<le> 122)
      else uni_word P c)"

definition extract_words :: "platform \<Rightarrow> ustr \<Rightarrow> ustr list" where
  "extract_words P text_in =
     (let words = findall_runs (is_word_char P) [] (str_lower P text_in)
      in filter (\<lambda>w. w \<noteq> [] \<and> w \<notin> STOPWORDS \<and> length w > 1) words)"

definition top_words :: "platform \<Rightarrow> message list \<Rightarrow> int \<Rightarrow> (ustr \<times> nat) list" where
  "top_words P messages n =
     most_common n
       (foldl (\<lambda>counter msg.
          foldl (\<lambda>counter word. counter_incr word counter) counter (extract_words P (msg_text msg)))
        [] messages)"

definition is_emoji_char :: "nat \<Rightarrow> bool" where
  "is_emoji_char c =
     ((0x1F600 \<le> c \<and> c \<le> 0x1F64F) \<or> (0x1F300 \<le> c \<and> c \<le> 0x1F5FF)
      \<or> (0x1F680 \<le> c \<and> c \<le> 0x1F6FF) \<or> (0x1F1E0 \<le> c \<and> c \<le> 0x1F1FF)
      \<or> (0x2700 \<le> c \<and> c \<le> 0x27BF) \<or> (0x1F900 \<le> c \<and> c \<le> 0x1F9FF))"

definition extract_emojis :: "ustr \<Rightarrow> ustr list" where
  "extract_emojis text_in = findall_runs is_emoji_char [] text_in"

definition top_emojis :: "message list \<Rightarrow> int \<Rightarrow> (ustr \<times> nat) list" where
  "top_emojis messages n =
     most_common n
       (foldl (\<lambda>counter msg.
          foldl (\<lambda>counter emoji_char. counter_incr emoji_char counter) counter
            (extract_emojis (msg_text msg)))
        [] messages)"

text \<open>
  The nested loops of \<open>top_words\<close> and \<open>top_emojis\<close> count the tokens of all
  messages in one pass: \<open>tally\<close> is that count for a list of tokens, \<open>first_pos\<close>
  the position at which a token is first met.
\<close>

definition tally :: "'k list \<Rightarrow> 'k counter" where
  "tally ks = foldl (\<lambda>counter k. counter_incr k counter) [] ks"

definition first_pos :: "'a list \<Rightarrow> 'a \<Rightarrow> nat" where
  "first_pos xs x = length (takeWhile (\<lambda>y. y \<noteq> x) xs)"

definition word_tokens :: "platform \<Rightarrow> message list \<Rightarrow> ustr list" where
  "word_tokens P messages = concat (map (\<lambda>msg. extract_words P (msg_text msg)) messages)"

definition emoji_tokens :: "message list \<Rightarrow> ustr list" where
  "emoji_tokens messages = concat (map (\<lambda>msg. extract_emojis (msg_text msg)) messages)"

text \<open>
  The order a top-N list is specified to have: a higher count comes first, and of two
  items with the same count the one met first while counting.
\<close>

definition ranked_before :: "'k list \<Rightarrow> 'k \<times> nat \<Rightarrow> 'k \<times> nat \<Rightarrow> bool" where
  "ranked_before toks a b \<longleftrightarrow>
     snd a > snd b \<or> (snd a = snd b \<and> first_pos toks (fst a) < first_pos toks (fst b))"

text \<open>
  \<open>top_n_of toks n res\<close>: \<open>res\<close> is the top \<open>n\<close> of the tokens \<open>toks\<close>. It is in
  that order, every entry is a token with its number of occurrences, it has \<open>n\<close>
  entries or all distinct tokens when there are fewer, and every token left out ranks
  after every entry.
\<close>

definition top_n_of :: "'k list \<Rightarrow> int \<Rightarrow> ('k \<times> nat) list \<Rightarrow> bool" where
  "top_n_of toks n res \<longleftrightarrow>
     sorted_wrt (ranked_before toks) res
     \<and> (\<forall>(w, c) \<in> set res. w \<in> set toks \<and> c = count_list toks w)
     \<and> length res = min (nat n) (card (set toks))
     \<and> (\<forall>w \<in> set toks. w \<notin> fst ` set res \<longrightarrow>
           (\<forall>e \<in> set res. ranked_before toks e (w, count_list toks w)))"

section \<open>The roast engine (roast\_engine.py)\<close>

subsection \<open>Double precision arithmetic\<close>

text \<open>
  \<open>part / whole * 100\<close> is computed in IEEE 754 binary64. A finite double is the
  rational number it denotes. \<open>round_double\<close> rounds a rational to the nearest double,
  ties to the even significand: 53 bits of significand, the least exponent of the
  subnormal numbers, and \<open>Inf\<close> when the rounded value reaches \<open>2 ^ 1024\<close>.
\<close>

datatype py_float = Fin rat | Inf

definition pow2 :: "int \<Rightarrow> rat" where
  "pow2 e = (if 0 \<le> e then 2 ^ nat e else 1 / 2 ^ nat (- e))"

text \<open>\<open>ilog2 x\<close> is the integer \<open>e\<close> with \<open>2 ^ e \<le> |x| < 2 ^ (e + 1)\<close>, for \<open>x \<noteq> 0\<close>.\<close>

definition ilog2 :: "rat \<Rightarrow> int" where
  "ilog2 x = (let (a, b) = quotient_of \<bar>x\<bar>; d = bitlen a - bitlen b
              in if pow2 d \<le> \<bar>x\<bar> then d else d - 1)"

definition round_half_even :: "rat \<Rightarrow> int" where
  "round_half_even x =
     (let f = \<lfloor>x\<rfloor>; d = x - of_int f
      in if d < 1 / 2 then f else if 1 / 2 < d then f + 1 else if even f then f else f + 1)"

definition nearest_binary64 :: "rat \<Rightarrow> rat" where
  "nearest_binary64 x =
     (if x = 0 then 0
      else let e = max (ilog2 x - 52) (- 1074)
           in of_int (round_half_even (x / pow2 e)) * pow2 e)"

definition round_double :: "rat \<Rightarrow> py_float" where
  "round_double x =
     (let y = nearest_binary64 x in if pow2 1024 \<le> \<bar>y\<bar> then Inf else Fin y)"

text \<open>
  \<open>a / b\<close> on two \<open>int\<close>s is the correctly rounded quotient; it raises for a zero
  divisor and when the quotient is too large for a double.
\<close>

definition true_div :: "int \<Rightarrow> int \<Rightarrow> error + rat" where
  "true_div a b =
     (if b = 0 then Inl ZeroDivisionError
      else case round_double (of_int a / of_int b) of
             Inf \<Rightarrow> Inl OverflowError
           | Fin q \<Rightarrow> Inr q)"

definition float_mul :: "rat \<Rightarrow> rat \<Rightarrow> py_float" where
  "float_mul x y = round_double (x * y)"

text \<open>\<open>round(x)\<close> on a float: to the nearest integer, ties to the even one.\<close>

definition py_round :: "py_float \<Rightarrow> error + int" where
  "py_round x = (case x of Fin r \<Rightarrow> Inr (round_half_even r) | Inf \<Rightarrow> Inl OverflowError)"

definition percentage :: "int \<Rightarrow> int \<Rightarrow> error + int" where
  "percentage part whole =
     (if whole \<noteq> 0 then
        (case true_div part whole of
           Inl e \<Rightarrow> Inl e
         | Inr q \<Rightarrow> py_round (float_mul q 100))
      else Inr 0)"

subsection \<open>Formatting\<close>

fun str_nat :: "nat \<Rightarrow> ustr" where
  "str_nat n = (if n < 10 then [48 + n] else str_nat (n div 10) @ [48 + n mod 10])"

declare str_nat.simps [simp del]

definition str_int :: "int \<Rightarrow> ustr" where
  "str_int i = (if i < 0 then 45 # str_nat (nat (- i)) else str_nat (nat i))"

definition WEEKDAY_NAMES :: "nat \<Rightarrow> ustr option" where
  "WEEKDAY_NAMES k =
     (if k = 0 then Some (lit ''Monday'') else if k = 1 then Some (lit ''Tuesday'')
      else if k = 2 then Some (lit ''Wednesday'') else if k = 3 then Some (lit ''Thursday'')
      else if k = 4 then Some (lit ''Friday'') else if k = 5 then Some (lit ''Saturday'')
      else if k = 6 then Some (lit ''Sunday'') else None)"

definition format_hour :: "nat \<Rightarrow> ustr" where
  "format_hour hour_in =
     (let suffix = (if hour_in < 12 then lit ''AM'' else lit ''PM'');
          h = hour_in mod 12;
          h = (if h = 0 then 12 else h)
      in str_nat h @ suffix)"

fun join :: "ustr \<Rightarrow> ustr list \<Rightarrow> ustr" where
  "join sep [] = []"
| "join sep [x] = x"
| "join sep (x # y # ys) = x @ sep @ join sep (y # ys)"

subsection \<open>\<open>generate_roast\<close>\<close>

text \<open>\<open>max(items, key=...)\<close>: the first item whose key is maximal; it raises on no item.\<close>

definition max_by :: "('a \<Rightarrow> nat) \<Rightarrow> 'a list \<Rightarrow> error + 'a" where
  "max_by key xs =
     (case xs of
        [] \<Rightarrow> Inl ValueError
      | x # ys \<Rightarrow> Inr (foldl (\<lambda>best y. if key best < key y then y else best) x ys))"

text \<open>Lines 78 to 81: the peak hour and the peak weekday.\<close>

definition peak_hour :: "message list \<Rightarrow> error + nat" where
  "peak_hour msgs =
     (let hour_counts = messages_by_hour msgs
      in case max_by snd hour_counts of Inl e \<Rightarrow> Inl e | Inr kv \<Rightarrow> Inr (fst kv))"

definition peak_weekday :: "message list \<Rightarrow> error + nat" where
  "peak_weekday msgs =
     (let weekday_counts = messages_by_weekday msgs
      in case max_by snd weekday_counts of Inl e \<Rightarrow> Inl e | Inr kv \<Rightarrow> Inr (fst kv))"

text \<open>Lines 70 to 76: the most and the least talkative sender, each with its percentage.\<close>

definition sender_stats :: "message list \<Rightarrow> error + (ustr \<times> int) \<times> (ustr \<times> int)" where
  "sender_stats msgs =
     (let total_messages = length msgs;
          counts = message_counts msgs;
          sorted_counts = sorted_reverse snd counts
      in case sorted_counts of
           [] \<Rightarrow> Inl IndexError
         | (top_sender, top_count) # _ \<Rightarrow>
             (case percentage (int top_count) (int total_messages) of
                Inl e \<Rightarrow> Inl e
              | Inr top_pct \<Rightarrow>
                  (let (bottom_sender, bottom_count) = last sorted_counts
                   in case percentage (int bottom_count) (int total_messages) of
                        Inl e \<Rightarrow> Inl e
                      | Inr bottom_pct \<Rightarrow>
                          Inr ((top_sender, top_pct), (bottom_sender, bottom_pct)))))"

text \<open>The templates, by level; the level is one of the three names when they are used.\<close>

definition top_sender_line :: "ustr \<Rightarrow> ustr \<Rightarrow> int \<Rightarrow> ustr" where
  "top_sender_line level top_sender top_pct =
     (if level = lit ''mild'' then
        top_sender @ lit '' sent the most messages at '' @ str_int top_pct
          @ lit ''% of the chat. Quite the social butterfly!''
      else if level = lit ''medium'' then
        top_sender @ lit '' dominated the chat with '' @ str_int top_pct
          @ lit ''% of the messages. Maybe let someone else get a word in?''
      else
        top_sender @ lit '' hogged '' @ str_int top_pct
          @ lit ''% of the conversation. Ever heard of a hobby outside this chat?'')"

definition bottom_sender_line :: "ustr \<Rightarrow> ustr \<Rightarrow> int \<Rightarrow> ustr" where
  "bottom_sender_line level bottom_sender bottom_pct =
     (if level = lit ''mild'' then
        bottom_sender @ lit '' only contributed '' @ str_int bottom_pct
          @ lit ''% of messages. Lurking is an art form, after all.''
      else if level = lit ''medium'' then
        bottom_sender @ lit '' clocked in at just '' @ str_int bottom_pct
          @ lit ''% of messages. Do you even know this chat exists?''
      else
        bottom_sender @ lit '' barely registered at '' @ str_int bottom_pct
          @ lit ''% of messages. Silent member or professional ghoster?'')"

definition peak_line :: "ustr \<Rightarrow> ustr \<Rightarrow> ustr \<Rightarrow> ustr" where
  "peak_line level peak_hour_str weekday_name =
     (if level = lit ''mild'' then
        lit ''Most chatting happens around '' @ peak_hour_str @ lit '' on '' @ weekday_name
          @ lit ''. Night owls with a schedule, perhaps?''
      else if level = lit ''medium'' then
        lit ''Peak chat time is '' @ peak_hour_str @ lit '' on '' @ weekday_name
          @ lit ''. Who needs sleep when you have memes?''
      else
        lit ''You lot blow up the chat at '' @ peak_hour_str @ lit '' on '' @ weekday_name
          @ lit ''. Congratulations on never respecting bed time.'')"

definition emoji_line :: "ustr \<Rightarrow> ustr \<Rightarrow> nat \<Rightarrow> ustr" where
  "emoji_line level top_emoji emoji_count =
     (if level = lit ''mild'' then
        lit ''Your favourite emoji appears to be '' @ top_emoji @ lit '', used ''
          @ str_nat emoji_count @ lit '' times. Expressive bunch!''
      else if level = lit ''medium'' then
        lit ''Top emoji award goes to '' @ top_emoji @ [32, 0x2013, 32] @ lit ''dropped ''
          @ str_nat emoji_count @ lit '' times. Maybe diversify your feelings?''
      else
        top_emoji @ lit '' shows up '' @ str_nat emoji_count
          @ lit '' times. Ever considered using words like a normal human?'')"

definition word_line :: "ustr \<Rightarrow> ustr \<Rightarrow> nat \<Rightarrow> ustr" where
  "word_line level top_word word_count =
     (if level = lit ''mild'' then
        lit ''The word '' @ [0x27] @ top_word @ [0x27] @ lit '' comes up a lot (''
          @ str_nat word_count @ lit '' times). Looks like a favourite topic!''
      else if level = lit ''medium'' then
        lit ''You say '' @ [0x27] @ top_word @ [0x27] @ [32] @ str_nat word_count
          @ lit '' times. Is that a cry for help or just laziness?''
      else
        [0x27] @ top_word @ [0x27] @ lit '' appears '' @ str_nat word_count
          @ lit '' times. We get it, you have a limited vocabulary.'')"

text \<open>
  Lines 83 to 87: \<open>emojis[0] if emojis else (None, 0)\<close>, and the same for the words.
\<close>

definition first_or_none :: "(ustr \<times> nat) list \<Rightarrow> ustr option \<times> nat" where
  "first_or_none xs = (case xs of x # _ \<Rightarrow> (Some (fst x), snd x) | [] \<Rightarrow> (None, 0))"

text \<open>
  Lines 130 to 158: what is appended to \<open>lines\<close> for the favourite emoji and for
  the most common word. \<open>if top_emoji:\<close> holds for a string that is not empty, and
  not for \<open>None\<close>.
\<close>

definition emoji_lines :: "ustr \<Rightarrow> ustr option \<times> nat \<Rightarrow> ustr list" where
  "emoji_lines level top_item =
     (case top_item of
        (Some top_emoji, emoji_count) \<Rightarrow>
          if top_emoji \<noteq> [] then [emoji_line level top_emoji emoji_count] else []
      | (None, _) \<Rightarrow> [])"

definition word_lines :: "ustr \<Rightarrow> ustr option \<times> nat \<Rightarrow> ustr list" where
  "word_lines level top_item =
     (case top_item of
        (Some top_word, word_count) \<Rightarrow>
          if top_word \<noteq> [] then [word_line level top_word word_count] else []
      | (None, _) \<Rightarrow> [])"

text \<open>
  Lines 70 to 158: the list \<open>lines\<close>, for a level that is already normalised.
\<close>

definition roast_lines :: "platform \<Rightarrow> message list \<Rightarrow> ustr \<Rightarrow> error + ustr list" where
  "roast_lines P msgs level =
     (case sender_stats msgs of
        Inl e \<Rightarrow> Inl e
      | Inr ((top_sender, top_pct), (bottom_sender, bottom_pct)) \<Rightarrow>
     (case peak_hour msgs of
        Inl e \<Rightarrow> Inl e
      | Inr peak_hour_v \<Rightarrow>
     (case peak_weekday msgs of
        Inl e \<Rightarrow> Inl e
      | Inr peak_weekday_v \<Rightarrow>
     (let emojis = top_emojis msgs 1;
          words = top_words P msgs 1;
          peak_hour_str = format_hour peak_hour_v;
          weekday_name = (case WEEKDAY_NAMES peak_weekday_v of Some name \<Rightarrow> name
                          | None \<Rightarrow> lit ''Unknown day'')
      in Inr ([top_sender_line level top_sender top_pct,
               bottom_sender_line level bottom_sender bottom_pct,
               peak_line level peak_hour_str weekday_name]
              @ emoji_lines level (first_or_none emojis)
              @ word_lines level (first_or_none words))))))"

text \<open>Lines 61 to 63: the level in lower case, \<open>medium\<close> for an unknown one.\<close>

definition roast_level :: "platform \<Rightarrow> ustr \<Rightarrow> ustr" where
  "roast_level P level_in =
     (let level = str_lower P level_in
      in if level \<notin> {lit ''mild'', lit ''medium'', lit ''savage''} then lit ''medium'' else level)"

definition generate_roast :: "platform \<Rightarrow> message list \<Rightarrow> ustr \<Rightarrow> error + ustr" where
  "generate_roast P messages level_in =
     (let level = roast_level P level_in;
          msgs = messages;
          total_messages = length msgs
      in if total_messages = 0 then Inr (lit ''No messages to roast.'')
         else case roast_lines P msgs level of
                Inl e \<Rightarrow> Inl e
              | Inr lines \<Rightarrow> Inr (join [10] lines))"

subsection \<open>A platform for ASCII text\<close>

text \<open>
  The platform tables restricted to ASCII letters and digits: on text whose letters
  and digits are all ASCII (emojis included) the Python library behaves like this.
  The concrete examples below use it.
\<close>

definition pad_nat :: "nat \<Rightarrow> nat \<Rightarrow> ustr" where
  "pad_nat w n = replicate (w - length (str_nat n)) 48 @ str_nat n"

definition ascii_platform :: platform where
  "ascii_platform =
     \<lparr> str_lower = map (\<lambda>c. if 65 \<le> c \<and> c \<le> 90 then c + 32 else c),
       uni_word = (\<lambda>c. False),
       uni_digit = (\<lambda>c. None),
       strftime_ymd = (\<lambda>(y, m, d). pad_nat 4 y @ [45] @ pad_nat 2 m @ [45] @ pad_nat 2 d) \<rparr>"

subsection \<open>An example chat\<close>

text \<open>
  Alice writes on Tuesday 2024-12-31 at 21:15, Bob on Monday 2024-12-30 at 10:00.
  Alice's text holds two words twice and once, and two emoji runs.
\<close>

definition msg_alice :: message where
  "msg_alice =
     \<lparr> timestamp = \<lparr> year = 2024, month = 12, day = 31, hour = 21, minute = 15 \<rparr>,
       sender = lit ''Alice'',
       msg_text = lit ''Hello hello world '' @ [0x1F600, 0x1F600, 32, 0x1F601] \<rparr>"

definition msg_bob :: message where
  "msg_bob =
     \<lparr> timestamp = \<lparr> year = 2024, month = 12, day = 30, hour = 10, minute = 0 \<rparr>,
       sender = lit ''Bob'',
       msg_text = lit ''world'' \<rparr>"

definition example_chat :: "message list" where
  "example_chat = [msg_alice, msg_bob]"

definition msg_silent :: message where
  "msg_silent =
     \<lparr> timestamp = \<lparr> year = 2023, month = 5, day = 1, hour = 13, minute = 0 \<rparr>,
       sender = lit ''X'',
       msg_text = [] \<rparr>"

section \<open>Specification-side notions for the roast engine\<close>

text \<open>
  \<open>first_most_frequent ks k\<close>: \<open>k\<close> occurs in \<open>ks\<close> at least as often as every other
  key, and no key with the same number of occurrences is met before it.
\<close>

definition first_most_frequent :: "'k list \<Rightarrow> 'k \<Rightarrow> bool" where
  "first_most_frequent ks k \<longleftrightarrow>
     k \<in> set ks
     \<and> (\<forall>k' \<in> set ks. count_list ks k' \<le> count_list ks k
           \<and> (count_list ks k' = count_list ks k \<longrightarrow> first_pos ks k \<le> first_pos ks k'))"

text \<open>
  The selection as the specification words it: of the keys with the maximal count, the
  smallest one.
\<close>

definition smallest_max_key :: "nat counter \<Rightarrow> nat" where
  "smallest_max_key counts =
     Min (fst ` set (filter (\<lambda>kv. snd kv = Max (snd ` set counts)) counts))"

text \<open>
  Rounding as the specification words it: to the nearest integer, a half away from zero.
\<close>

definition round_half_away :: "rat \<Rightarrow> int" where
  "round_half_away x = (if 0 \<le> x then \<lfloor>x + 1 / 2\<rfloor> else - \<lfloor>- x + 1 / 2\<rfloor>)"

section \<open>The export parser (whatsapp\_parser.py)\<close>

subsection \<open>Regular expressions\<close>

text \<open>
  The patterns of the parser and of \<open>strptime\<close> use character classes, greedy
  repetition of a class, sequence, alternation, named groups and the end anchor. \<open>rx\<close>
  is that fragment of \<open>re\<close>.
\<close>

datatype rx =
    Cls "nat \<Rightarrow> bool"
  | Many "nat \<Rightarrow> bool" nat "nat option"
  | Seq rx rx
  | Alt rx rx
  | Eps
  | Grp string rx
  | Eos

type_synonym groups = "string \<rightharpoonup> ustr"

text \<open>
  \<open>try_down f lo n\<close> tries the repetition counts \<open>n\<close>, \<open>n - 1\<close>, down to \<open>lo\<close>, and
  returns the first success: a greedy quantifier gives characters back one at a time.
\<close>

primrec try_down :: "(nat \<Rightarrow> 'r option) \<Rightarrow> nat \<Rightarrow> nat \<Rightarrow> 'r option" where
  "try_down f lo 0 = (if lo = 0 then f 0 else None)"
| "try_down f lo (Suc n) =
     (if Suc n < lo then None
      else case f (Suc n) of Some r \<Rightarrow> Some r | None \<Rightarrow> try_down f lo n)"

text \<open>
  The backtracking matcher, with the rest of the pattern as the continuation \<open>k\<close>:
  \<open>matcher r k s g\<close> matches \<open>r\<close> at the start of \<open>s\<close> with the groups \<open>g\<close> set so
  far, and returns what the first alternative returns whose continuation succeeds.
  Alternatives are tried from left to right, a repetition from the longest. \<open>$\<close>
  matches at the end and before a final line break.
\<close>

primrec matcher :: "rx \<Rightarrow> (ustr \<Rightarrow> groups \<Rightarrow> 'r option) \<Rightarrow> ustr \<Rightarrow> groups \<Rightarrow> 'r option" where
  "matcher (Cls p) k s g = (case s of [] \<Rightarrow> None | c # cs \<Rightarrow> if p c then k cs g else None)"
| "matcher (Many p lo hi) k s g =
     (let n = length (takeWhile p s);
          n = (case hi of None \<Rightarrow> n | Some h \<Rightarrow> min h n)
      in try_down (\<lambda>j. k (drop j s) g) lo n)"
| "matcher (Seq a b) k s g = matcher a (matcher b k) s g"
| "matcher (Alt a b) k s g =
     (case matcher a k s g of Some r \<Rightarrow> Some r | None \<Rightarrow> matcher b k s g)"
| "matcher Eps k s g = k s g"
| "matcher (Grp name a) k s g =
     matcher a (\<lambda>s' g'. k s' (g'(name \<mapsto> take (length s - length s') s))) s g"
| "matcher Eos k s g = (if s = [] \<or> s = [10] then k s g else None)"

text \<open>\<open>pattern.match(s)\<close>: the groups and the unmatched rest of \<open>s\<close>.\<close>

definition re_match :: "rx \<Rightarrow> ustr \<Rightarrow> (groups \<times> ustr) option" where
  "re_match r s = matcher r (\<lambda>s' g'. Some (g', s')) s Map.empty"

fun seq :: "rx list \<Rightarrow> rx" where
  "seq [] = Eps"
| "seq [r] = r"
| "seq (r # rs) = Seq r (seq rs)"

definition chr :: "nat \<Rightarrow> rx" where
  "chr c = Cls (\<lambda>x. x = c)"

definition rng :: "nat \<Rightarrow> nat \<Rightarrow> rx" where
  "rng lo hi = Cls (\<lambda>x. lo \<le> x \<and> x \<le> hi)"

text \<open>
  \<open>\d\<close> on a \<open>str\<close> pattern: the ASCII digits and the other decimal digits of
  Unicode. \<open>\s\<close>, like \<open>str.strip()\<close> and \<open>str.isspace()\<close>: the Unicode
  whitespace.
\<close>

definition is_digit :: "platform \<Rightarrow> nat \<Rightarrow> bool" where
  "is_digit P c = (if c < 128 then 48 \<le> c \<and> c \<le> 57 else uni_digit P c \<noteq> None)"

definition digit_value :: "platform \<Rightarrow> nat \<Rightarrow> nat" where
  "digit_value P c =
     (if c < 128 then c - 48 else case uni_digit P c of Some v \<Rightarrow> v | None \<Rightarrow> 0)"

definition is_space :: "nat \<Rightarrow> bool" where
  "is_space c =
     ((0x09 \<le> c \<and> c \<le> 0x0D) \<or> (0x1C \<le> c \<and> c \<le> 0x20) \<or> c = 0x85 \<or> c = 0xA0
      \<or> c = 0x1680 \<or> (0x2000 \<le> c \<and> c \<le> 0x200A) \<or> c = 0x2028 \<or> c = 0x2029
      \<or> c = 0x202F \<or> c = 0x205F \<or> c = 0x3000)"

text \<open>
  \<open>_MESSAGE_RE\<close>:
  \<^verbatim>\<open>^(?P<date>\d{1,2}/\d{1,2}/\d{2,4}),\s*(?P<time>\d{1,2}:\d{2})\s*(?P<ampm>AM|PM)?\s*\-\s*(?P<sender>[^:]+):\s*(?P<text>.*)$\<close>
\<close>

definition MESSAGE_RE :: "platform \<Rightarrow> rx" where
  "MESSAGE_RE P =
     seq [Grp ''date'' (seq [Many (is_digit P) 1 (Some 2), chr 47, Many (is_digit P) 1 (Some 2),
                            chr 47, Many (is_digit P) 2 (Some 4)]),
          chr 44, Many is_space 0 None,
          Grp ''time'' (seq [Many (is_digit P) 1 (Some 2), chr 58, Many (is_digit P) 2 (Some 2)]),
          Many is_space 0 None,
          Alt (Grp ''ampm'' (Alt (seq [chr 65, chr 77]) (seq [chr 80, chr 77]))) Eps,
          Many is_space 0 None, chr 45, Many is_space 0 None,
          Grp ''sender'' (Many (\<lambda>c. c \<noteq> 58) 1 None),
          chr 58, Many is_space 0 None,
          Grp ''text'' (Many (\<lambda>c. c \<noteq> 10) 0 None),
          Eos]"

subsection \<open>\<open>datetime.strptime\<close>\<close>

text \<open>
  \<open>strptime\<close> turns the format into a regular expression, one named group for each
  directive (Lib/\_strptime.py, in the C locale), matches it at the start of the string
  without regard to case, and raises \<open>ValueError\<close> when it does not match or when a
  part of the string is left over. A run of whitespace in the format becomes \<open>\s+\<close>.
\<close>

definition dir_m :: rx where
  \<comment> \<open>\<^verbatim>\<open>(?P<m>1[0-2]|0[1-9]|[1-9])\<close>\<close>
  "dir_m = Grp ''m'' (Alt (seq [chr 49, rng 48 50]) (Alt (seq [chr 48, rng 49 57]) (rng 49 57)))"

definition dir_d :: "platform \<Rightarrow> rx" where
  \<comment> \<open>\<^verbatim>\<open>(?P<d>3[0-1]|[1-2]\d|0[1-9]|[1-9]| [1-9])\<close>\<close>
  "dir_d P = Grp ''d'' (Alt (seq [chr 51, rng 48 49]) (Alt (seq [rng 49 50, Cls (is_digit P)])
               (Alt (seq [chr 48, rng 49 57]) (Alt (rng 49 57) (seq [chr 32, rng 49 57])))))"

definition dir_Y :: "platform \<Rightarrow> rx" where
  \<comment> \<open>\<^verbatim>\<open>(?P<Y>\d\d\d\d)\<close>\<close>
  "dir_Y P = Grp ''Y'' (seq [Cls (is_digit P), Cls (is_digit P), Cls (is_digit P), Cls (is_digit P)])"

definition dir_I :: rx where
  \<comment> \<open>\<^verbatim>\<open>(?P<I>1[0-2]|0[1-9]|[1-9])\<close>\<close>
  "dir_I = Grp ''I'' (Alt (seq [chr 49, rng 48 50]) (Alt (seq [chr 48, rng 49 57]) (rng 49 57)))"

definition dir_H :: "platform \<Rightarrow> rx" where
  \<comment> \<open>\<^verbatim>\<open>(?P<H>2[0-3]|[0-1]\d|\d)\<close>\<close>
  "dir_H P = Grp ''H'' (Alt (seq [chr 50, rng 48 51]) (Alt (seq [rng 48 49, Cls (is_digit P)])
               (Cls (is_digit P))))"

definition dir_M :: "platform \<Rightarrow> rx" where
  \<comment> \<open>\<^verbatim>\<open>(?P<M>[0-5]\d|\d)\<close>\<close>
  "dir_M P = Grp ''M'' (Alt (seq [rng 48 53, Cls (is_digit P)]) (Cls (is_digit P)))"

definition dir_p :: rx where
  \<comment> \<open>\<^verbatim>\<open>(?P<p>am|pm)\<close>, without regard to case\<close>
  "dir_p = Grp ''p'' (Alt (seq [Cls (\<lambda>c. c = 97 \<or> c = 65), Cls (\<lambda>c. c = 109 \<or> c = 77)])
                          (seq [Cls (\<lambda>c. c = 112 \<or> c = 80), Cls (\<lambda>c. c = 109 \<or> c = 77)]))"

text \<open>The formats \<^verbatim>\<open>%m/%d/%Y, %I:%M %p\<close> and \<^verbatim>\<open>%m/%d/%Y, %H:%M\<close>.\<close>

definition format_12 :: "platform \<Rightarrow> rx" where
  "format_12 P = seq [dir_m, chr 47, dir_d P, chr 47, dir_Y P, chr 44, Many is_space 1 None,
                      dir_I, chr 58, dir_M P, Many is_space 1 None, dir_p]"

definition format_24 :: "platform \<Rightarrow> rx" where
  "format_24 P = seq [dir_m, chr 47, dir_d P, chr 47, dir_Y P, chr 44, Many is_space 1 None,
                      dir_H P, chr 58, dir_M P]"

text \<open>\<open>int(s)\<close> on a string of decimal digits.\<close>

definition int_of_digits :: "platform \<Rightarrow> ustr \<Rightarrow> nat" where
  "int_of_digits P s = foldl (\<lambda>a c. 10 * a + digit_value P c) 0 s"

definition group_int :: "platform \<Rightarrow> groups \<Rightarrow> string \<Rightarrow> nat" where
  "group_int P found name = (case found name of Some s \<Rightarrow> int_of_digits P s | None \<Rightarrow> 0)"

text \<open>
  The constructor of \<open>datetime\<close> raises \<open>ValueError\<close> for a year outside 1 to 9999,
  a month outside 1 to 12, a day that the month does not have, an hour above 23 or a
  minute above 59.
\<close>

definition valid_datetime :: "datetime \<Rightarrow> bool" where
  "valid_datetime d \<longleftrightarrow>
     1 \<le> year d \<and> year d \<le> 9999 \<and> 1 \<le> month d \<and> month d \<le> 12
     \<and> 1 \<le> day d \<and> day d \<le> days_in_month (year d) (month d)
     \<and> hour d \<le> 23 \<and> minute d \<le> 59"

definition make_datetime :: "nat \<Rightarrow> nat \<Rightarrow> nat \<Rightarrow> nat \<Rightarrow> nat \<Rightarrow> error + datetime" where
  "make_datetime y m d h mi =
     (let dt = \<lparr> year = y, month = m, day = d, hour = h, minute = mi \<rparr>
      in if valid_datetime dt then Inr dt else Inl ValueError)"

text \<open>
  The hour of \<open>%I\<close> with the marker of \<open>%p\<close>, in lower case: 12 AM is hour 0, and
  PM adds 12 to every hour but 12.
\<close>

definition hour_12 :: "nat \<Rightarrow> ustr \<Rightarrow> nat" where
  "hour_12 h ampm =
     (if ampm = [] \<or> ampm = lit ''am'' then (if h = 12 then 0 else h)
      else if ampm = lit ''pm'' then (if h \<noteq> 12 then h + 12 else h)
      else h)"

definition ascii_lower :: "ustr \<Rightarrow> ustr" where
  "ascii_lower s = map (\<lambda>c. if 65 \<le> c \<and> c \<le> 90 then c + 32 else c) s"

definition strptime :: "platform \<Rightarrow> ustr \<Rightarrow> rx \<Rightarrow> error + datetime" where
  "strptime P data_string format_regex =
     (case re_match format_regex data_string of
        None \<Rightarrow> Inl ValueError
      | Some (found, rest) \<Rightarrow>
          if rest \<noteq> [] then Inl ValueError
          else
            let y = group_int P found ''Y'';
                m = group_int P found ''m'';
                d = group_int P found ''d'';
                h = (case found ''H'' of
                       Some s \<Rightarrow> int_of_digits P s
                     | None \<Rightarrow>
                        (case found ''I'' of
                           Some s \<Rightarrow>
                             hour_12 (int_of_digits P s)
                               (ascii_lower (case found ''p'' of Some a \<Rightarrow> a | None \<Rightarrow> []))
                         | None \<Rightarrow> 0));
                mi = group_int P found ''M''
            in make_datetime y m d h mi)"

subsection \<open>\<open>_parse_timestamp\<close> and \<open>parse_chat\<close>\<close>

text \<open>\<open>s.split(sep)\<close> for a separator of one character.\<close>

fun split_on :: "nat \<Rightarrow> ustr \<Rightarrow> ustr \<Rightarrow> ustr list" where
  "split_on sep acc [] = [acc]"
| "split_on sep acc (c # cs) =
     (if c = sep then acc # split_on sep [] cs else split_on sep (acc @ [c]) cs)"

definition parse_timestamp :: "platform \<Rightarrow> ustr \<Rightarrow> ustr \<Rightarrow> ustr option \<Rightarrow> error + datetime" where
  "parse_timestamp P date_str time_str ampm =
     (case split_on 47 [] date_str of
        [month_s, day_s, year_s] \<Rightarrow>
          (let year_s = (if length year_s = 2 then lit ''20'' @ year_s else year_s)
           in case ampm of
                Some a \<Rightarrow>
                  if a \<noteq> [] then
                    strptime P (month_s @ [47] @ day_s @ [47] @ year_s @ [44, 32] @ time_str
                                @ [32] @ a) (format_12 P)
                  else
                    strptime P (month_s @ [47] @ day_s @ [47] @ year_s @ [44, 32] @ time_str)
                      (format_24 P)
              | None \<Rightarrow>
                  strptime P (month_s @ [47] @ day_s @ [47] @ year_s @ [44, 32] @ time_str)
                    (format_24 P))
      | _ \<Rightarrow> Inl ValueError)"

text \<open>\<open>s.strip()\<close> and \<open>s.strip("\n")\<close>.\<close>

definition strip_with :: "(nat \<Rightarrow> bool) \<Rightarrow> ustr \<Rightarrow> ustr" where
  "strip_with p s = rev (dropWhile p (rev (dropWhile p s)))"

text \<open>
  Iterating over a text file yields its lines, each with its line break; a last line
  without one is yielded as it is.
\<close>

fun file_lines :: "ustr \<Rightarrow> ustr \<Rightarrow> ustr list" where
  "file_lines acc [] = (if acc = [] then [] else [acc])"
| "file_lines acc (c # cs) =
     (if c = 10 then (acc @ [10]) # file_lines [] cs else file_lines (acc @ [c]) cs)"

text \<open>
  One pass of the loop of \<open>parse_chat\<close>, with the list \<open>messages\<close> and \<open>current_msg\<close> as
  the state; an exception of \<open>_parse_timestamp\<close> ends the loop.
\<close>

fun parse_loop ::
  "platform \<Rightarrow> ustr list \<Rightarrow> message list \<Rightarrow> message option
     \<Rightarrow> error + (message list \<times> message option)" where
  "parse_loop P [] messages current_msg = Inr (messages, current_msg)"
| "parse_loop P (raw_line # rest) messages current_msg =
     (let line = strip_with (\<lambda>c. c = 10) raw_line
      in if line = [] then parse_loop P rest messages current_msg
         else
           case re_match (MESSAGE_RE P) line of
             Some (m, _) \<Rightarrow>
               (let messages = (case current_msg of Some c \<Rightarrow> messages @ [c] | None \<Rightarrow> messages);
                    date_str = (case m ''date'' of Some s \<Rightarrow> s | None \<Rightarrow> []);
                    time_str = (case m ''time'' of Some s \<Rightarrow> s | None \<Rightarrow> []);
                    ampm = m ''ampm'';
                    sender_s = strip_with is_space (case m ''sender'' of Some s \<Rightarrow> s | None \<Rightarrow> []);
                    text_s = (case m ''text'' of Some s \<Rightarrow> s | None \<Rightarrow> [])
                in case parse_timestamp P date_str time_str ampm of
                     Inl e \<Rightarrow> Inl e
                   | Inr ts \<Rightarrow>
                       parse_loop P rest messages
                         (Some \<lparr> timestamp = ts, sender = sender_s, msg_text = text_s \<rparr>))
           | None \<Rightarrow>
               (case current_msg of
                  Some c \<Rightarrow>
                    parse_loop P rest messages (Some (c\<lparr> msg_text := msg_text c @ [10] @ line \<rparr>))
                | None \<Rightarrow> parse_loop P rest messages None))"

text \<open>
  \<open>parse_chat\<close> on the decoded content of the file (with universal newlines, so that
  every line break is the character 10).
\<close>

definition parse_chat :: "platform \<Rightarrow> ustr \<Rightarrow> error + message list" where
  "parse_chat P content =
     (case parse_loop P (file_lines [] content) [] None of
        Inl e \<Rightarrow> Inl e
      | Inr (messages, current_msg) \<Rightarrow>
          (case current_msg of Some c \<Rightarrow> Inr (messages @ [c]) | None \<Rightarrow> Inr messages))"

section \<open>Specification-side notions for the parser\<close>

text \<open>
  The lines that the loop of \<open>parse_chat\<close> looks at: the lines of the file without
  their line breaks, the empty ones left out.
\<close>

definition content_lines :: "ustr \<Rightarrow> ustr list" where
  "content_lines content =
     filter (\<lambda>l. l \<noteq> []) (map (strip_with (\<lambda>c. c = 10)) (file_lines [] content))"

text \<open>
  What a line starts when it is read: nothing when it does not match the header
  pattern, otherwise the error of \<open>_parse_timestamp\<close> or the new message.
\<close>

definition header_message :: "platform \<Rightarrow> ustr \<Rightarrow> (error + message) option" where
  "header_message P line =
     (case re_match (MESSAGE_RE P) line of
        None \<Rightarrow> None
      | Some (m, _) \<Rightarrow>
          Some (case parse_timestamp P (case m ''date'' of Some s \<Rightarrow> s | None \<Rightarrow> [])
                  (case m ''time'' of Some s \<Rightarrow> s | None \<Rightarrow> []) (m ''ampm'') of
             Inl e \<Rightarrow> Inl e
           | Inr ts \<Rightarrow>
               Inr \<lparr> timestamp = ts,
                     sender = strip_with is_space (case m ''sender'' of Some s \<Rightarrow> s | None \<Rightarrow> []),
                     msg_text = (case m ''text'' of Some s \<Rightarrow> s | None \<Rightarrow> []) \<rparr>))"

definition is_header :: "platform \<Rightarrow> ustr \<Rightarrow> bool" where
  "is_header P line \<longleftrightarrow> re_match (MESSAGE_RE P) line \<noteq> None"

definition extends :: "message \<Rightarrow> message \<Rightarrow> bool" where
  "extends c' c \<longleftrightarrow>
     timestamp c' = timestamp c \<and> sender c' = sender c
     \<and> prefix (msg_text c) (msg_text c')"

definition started_by :: "platform \<Rightarrow> message \<Rightarrow> ustr \<Rightarrow> bool" where
  "started_by P msg line \<longleftrightarrow>
     (case header_message P line of Some (Inr m0) \<Rightarrow> extends msg m0 | _ \<Rightarrow> False)"

definition out :: "message list \<Rightarrow> message option \<Rightarrow> message list" where
  "out ms cur = ms @ (case cur of None \<Rightarrow> [] | Some c \<Rightarrow> [c])"

definition clean :: "ustr list \<Rightarrow> ustr list" where
  "clean ls = filter (\<lambda>l. l \<noteq> []) (map (strip_with (\<lambda>c. c = 10)) ls)"

definition example_export :: ustr where
  "example_export = lit ''Messages are end-to-end encrypted.'' @ [10]
                @ lit ''12/30/24, 9:15 PM - Alice: Hey!'' @ [10]
                @ lit ''and more'' @ [10] @ [10]
                @ lit ''12/31/24, 10:00 AM - Bob: Hello'' @ [10]"

definition broken_export :: ustr where
  "broken_export = lit ''12/30/24, 9:15 PM - Alice: Hey!'' @ [10]
                @ lit ''13/1/24, 9:15 PM - A: hi'' @ [10]"

definition scenario_a :: ustr where
  "scenario_a = lit ''12/30/24, 9:15 PM - Alice: Hey!'' @ [10]
                @ lit ''12/31/24, 10:00 AM - Bob: Hello'' @ [10]"

text \<open>
  \<open>accepts r v\<close>: the pattern \<open>r\<close> can match exactly the string \<open>v\<close>; \<open>names r\<close>
  are the groups of \<open>r\<close>.
\<close>

primrec accepts :: "rx \<Rightarrow> ustr \<Rightarrow> bool" where
  "accepts (Cls p) v \<longleftrightarrow> (\<exists>c. v = [c] \<and> p c)"
| "accepts (Many p lo hi) v \<longleftrightarrow>
     lo \<le> length v \<and> (case hi of None \<Rightarrow> True | Some h \<Rightarrow> length v \<le> h) \<and> (\<forall>c\<in>set v. p c)"
| "accepts (Seq a b) v \<longleftrightarrow> (\<exists>v1 v2. v = v1 @ v2 \<and> accepts a v1 \<and> accepts b v2)"
| "accepts (Alt a b) v \<longleftrightarrow> accepts a v \<or> accepts b v"
| "accepts Eps v \<longleftrightarrow> v = []"
| "accepts (Grp name a) v \<longleftrightarrow> accepts a v"
| "accepts Eos v \<longleftrightarrow> v = []"

primrec names :: "rx \<Rightarrow> string set" where
  "names (Cls p) = {}"
| "names (Many p lo hi) = {}"
| "names (Seq a b) = names a \<union> names b"
| "names (Alt a b) = names a \<union> names b"
| "names Eps = {}"
| "names (Grp name a) = insert name (names a)"
| "names Eos = {}"

text \<open>
  A property of the Unicode character database that the platform tables are assumed to
  share: no whitespace character is a decimal digit.
\<close>

definition unicode_consistent :: "platform \<Rightarrow> bool" where
  "unicode_consistent P \<longleftrightarrow> (\<forall>c. is_space c \<longrightarrow> \<not> is_digit P c)"

text \<open>
  What the header pattern and \<open>_parse_timestamp\<close> give for a line: the text that
  \<^verbatim>\<open>[^:]+\<close> matched, and the timestamp or the error. \<open>record_of_header P msg line\<close>
  says that the record \<open>msg\<close> has the sender and the timestamp of the header
  \<open>line\<close>: its sender is that matched text, which is not empty and has no colon,
  trimmed of whitespace, and its timestamp is the valid one that the date and time of
  the line parse to.
\<close>

definition header_sender_text :: "platform \<Rightarrow> ustr \<Rightarrow> ustr option" where
  "header_sender_text P line =
     (case re_match (MESSAGE_RE P) line of None \<Rightarrow> None | Some (m, _) \<Rightarrow> m ''sender'')"

definition header_timestamp :: "platform \<Rightarrow> ustr \<Rightarrow> (error + datetime) option" where
  "header_timestamp P line =
     (case re_match (MESSAGE_RE P) line of
        None \<Rightarrow> None
      | Some (m, _) \<Rightarrow>
          Some (parse_timestamp P (case m ''date'' of Some s \<Rightarrow> s | None \<Rightarrow> [])
                  (case m ''time'' of Some s \<Rightarrow> s | None \<Rightarrow> []) (m ''ampm'')))"

definition record_of_header :: "platform \<Rightarrow> message \<Rightarrow> ustr \<Rightarrow> bool" where
  "record_of_header P msg line \<longleftrightarrow>
     (case header_sender_text P line of
        None \<Rightarrow> False
      | Some raw \<Rightarrow>
          raw \<noteq> [] \<and> 58 \<notin> set raw
          \<and> sender msg = strip_with is_space raw
          \<and> (sender msg = [] \<longleftrightarrow> list_all is_space raw)
          \<and> 58 \<notin> set (sender msg)
          \<and> (sender msg = [] \<or> (\<not> is_space (hd (sender msg)) \<and> \<not> is_space (last (sender msg))))
          \<and> header_timestamp P line = Some (Inr (timestamp msg))
          \<and> valid_datetime (timestamp msg))"

section \<open>Properties of the aggregation\<close>

subsection \<open>Counting\<close>

lemma counter_incr_keys:
  "map fst (counter_incr k c) = (if k \<in> set (map fst c) then map fst c else map fst c @ [k])"
  by (induction c) (auto simp: rev_image_eqI)

lemma counter_incr_set:
  "distinct (map fst c) \<Longrightarrow> (x, v) \<in> set (counter_incr k c) \<longleftrightarrow>
     (if x = k then (if k \<in> set (map fst c) then (\<exists>w. (k, w) \<in> set c \<and> v = w + 1) else v = 1)
      else (x, v) \<in> set c)"
proof (induction c)
  case Nil
  show ?case by auto
next
  case (Cons a c)
  obtain k' c' where a: "a = (k', c')" by (cases a)
  have nk: "k' \<notin> set (map fst c)" and d: "distinct (map fst c)" using Cons.prems a by auto
  have no: "\<And>w. (k', w) \<notin> set c" using nk by force
  show ?case
  proof (cases "k = k'")
    case True
    then show ?thesis using a no by auto
  next
    case False
    then show ?thesis using a Cons.IH[OF d] by auto
  qed
qed

lemma tally_snoc: "tally (ks @ [k]) = counter_incr k (tally ks)"
  by (simp add: tally_def)

lemma tally_keys: "distinct (map fst (tally ks)) \<and> set (map fst (tally ks)) = set ks"
proof (induction ks rule: rev_induct)
  case Nil
  show ?case by (simp add: tally_def)
next
  case (snoc k ks)
  show ?case
  proof (cases "k \<in> set ks")
    case True
    then show ?thesis using snoc by (simp add: tally_snoc counter_incr_keys del: set_map) blast
  next
    case False
    then show ?thesis using snoc by (simp add: tally_snoc counter_incr_keys del: set_map)
  qed
qed


lemma tally_count: "(x, v) \<in> set (tally ks) \<Longrightarrow> v = count_list ks x"
proof (induction ks arbitrary: x v rule: rev_induct)
  case Nil
  then show ?case by (simp add: tally_def)
next
  case (snoc k ks)
  have d: "distinct (map fst (tally ks))" using tally_keys[of ks] by simp
  have k: "set (map fst (tally ks)) = set ks" using tally_keys[of ks] by simp
  note mem = snoc.prems[unfolded tally_snoc counter_incr_set[OF d] k]
  show ?case
  proof (cases "x = k")
    case True
    show ?thesis
    proof (cases "k \<in> set ks")
      case True
      with mem \<open>x = k\<close> obtain w where "(k, w) \<in> set (tally ks)" "v = w + 1"
        by auto
      with snoc.IH \<open>x = k\<close> show ?thesis by simp
    next
      case False
      with mem \<open>x = k\<close> have "v = 1" by simp
      with False \<open>x = k\<close> show ?thesis by (simp add: count_list_0_iff)
    qed
  next
    case False
    with mem have "(x, v) \<in> set (tally ks)" by simp
    with snoc.IH False show ?thesis by simp
  qed
qed

lemma first_pos_append:
  "x \<in> set xs \<Longrightarrow> first_pos (xs @ ys) x = first_pos xs x"
  by (simp add: first_pos_def takeWhile_append1)

lemma first_pos_less: "x \<in> set xs \<Longrightarrow> first_pos xs x < length xs"
  unfolding first_pos_def by (induction xs) auto

lemma first_pos_new: "x \<notin> set xs \<Longrightarrow> first_pos (xs @ [x]) x = length xs"
  unfolding first_pos_def by (induction xs) auto

lemma tally_order:
  "sorted_wrt (\<lambda>a b. first_pos ks a < first_pos ks b) (map fst (tally ks))"
proof (induction ks rule: rev_induct)
  case Nil
  show ?case by (simp add: tally_def)
next
  case (snoc k ks)
  let ?R = "\<lambda>zs a b. first_pos zs a < first_pos zs b"
  have k: "set (map fst (tally ks)) = set ks" using tally_keys[of ks] by simp
  have old: "sorted_wrt (?R (ks @ [k])) (map fst (tally ks))"
  proof (rule sorted_wrt_mono_rel[OF _ snoc])
    fix a b assume "a \<in> set (map fst (tally ks))" "b \<in> set (map fst (tally ks))"
      "first_pos ks a < first_pos ks b"
    then show "first_pos (ks @ [k]) a < first_pos (ks @ [k]) b"
      unfolding k by (simp add: first_pos_append)
  qed
  show ?case
  proof (cases "k \<in> set ks")
    case True
    then show ?thesis using old k by (simp add: tally_snoc counter_incr_keys del: set_map)
  next
    case False
    have "\<forall>a\<in>set (map fst (tally ks)). first_pos (ks @ [k]) a < first_pos (ks @ [k]) k"
      unfolding k using False by (simp add: first_pos_append first_pos_new first_pos_less)
    then show ?thesis using old k False
      by (simp add: tally_snoc counter_incr_keys sorted_wrt_append del: set_map)
  qed
qed

lemma foldl_concat_tokens:
  "foldl (\<lambda>c m. foldl f c (g m)) a ms = foldl f a (concat (map g ms))"
  by (induction ms arbitrary: a) auto

subsection \<open>The most common items\<close>

lemma top_words_tally: "top_words P messages n = most_common n (tally (word_tokens P messages))"
  by (simp add: top_words_def tally_def word_tokens_def foldl_concat_tokens)

lemma top_emojis_tally: "top_emojis messages n = most_common n (tally (emoji_tokens messages))"
  by (simp add: top_emojis_def tally_def emoji_tokens_def foldl_concat_tokens)

lemma insort_key_ranked:
  fixes f :: "'a \<Rightarrow> int"
  assumes "sorted_wrt (\<lambda>a b. f a < f b \<or> (f a = f b \<and> R a b)) ys"
    and "\<forall>y\<in>set ys. R x y"
  shows "sorted_wrt (\<lambda>a b. f a < f b \<or> (f a = f b \<and> R a b)) (insort_key f x ys)"
  using assms
proof (induction ys)
  case Nil
  show ?case by simp
next
  case (Cons y ys)
  show ?case
  proof (cases "f x \<le> f y")
    case True
    have "\<forall>z\<in>set ys. f y \<le> f z" using Cons.prems(1) by auto
    with True have "\<forall>z\<in>set (y # ys). f x \<le> f z" by auto
    with Cons.prems have "\<forall>z\<in>set (y # ys). f x < f z \<or> (f x = f z \<and> R x z)" by auto
    with True Cons.prems(1) show ?thesis by simp
  next
    case False
    have "sorted_wrt (\<lambda>a b. f a < f b \<or> (f a = f b \<and> R a b)) (insort_key f x ys)"
      using Cons by simp
    moreover have "\<forall>z\<in>set (insort_key f x ys). f y < f z \<or> (f y = f z \<and> R y z)"
      using False Cons.prems(1) by (auto simp: set_insort_key)
    ultimately show ?thesis using False by simp
  qed
qed

lemma sort_key_ranked:
  fixes f :: "'a \<Rightarrow> int"
  assumes "sorted_wrt R xs"
  shows "sorted_wrt (\<lambda>a b. f a < f b \<or> (f a = f b \<and> R a b)) (sort_key f xs)"
  using assms
proof (induction xs)
  case Nil
  show ?case by simp
next
  case (Cons x xs)
  then show ?case by (simp add: insort_key_ranked)
qed

lemma sorted_reverse_tally:
  "sorted_wrt (ranked_before toks) (sorted_reverse snd (tally toks))"
proof -
  have "sorted_wrt (\<lambda>a b. first_pos toks (fst a) < first_pos toks (fst b)) (tally toks)"
    using tally_order[of toks] by (simp add: sorted_wrt_map)
  from sort_key_ranked[OF this, of "\<lambda>x. - int (snd x)"]
  show ?thesis
    unfolding sorted_reverse_def ranked_before_def
    by (rule sorted_wrt_mono_rel[rotated]) auto
qed

lemma length_tally: "length (tally toks) = card (set toks)"
proof -
  have "card (set (map fst (tally toks))) = length (map fst (tally toks))"
    by (rule distinct_card) (simp add: tally_keys)
  then show ?thesis using tally_keys[of toks] by (simp del: set_map)
qed

lemma tally_member:
  "w \<in> set toks \<Longrightarrow> (w, count_list toks w) \<in> set (tally toks)"
proof -
  assume "w \<in> set toks"
  then have "w \<in> set (map fst (tally toks))" using tally_keys[of toks] by simp
  then obtain c where "(w, c) \<in> set (tally toks)" by auto
  then show ?thesis using tally_count by fastforce
qed

lemma most_common_top_n: "top_n_of toks n (most_common n (tally toks))"
proof (cases "n \<le> 0")
  case True
  then show ?thesis by (simp add: top_n_of_def most_common_def)
next
  case False
  let ?ys = "sorted_reverse snd (tally toks)"
  let ?res = "take (nat n) ?ys"
  have res: "most_common n (tally toks) = ?res" using False by (simp add: most_common_def)
  have set_ys: "set ?ys = set (tally toks)" by (simp add: sorted_reverse_def)
  have s: "sorted_wrt (ranked_before toks) ?ys" by (rule sorted_reverse_tally)
  have 1: "sorted_wrt (ranked_before toks) ?res" using s by (rule sorted_wrt_take)
  have 2: "\<forall>(w, c) \<in> set ?res. w \<in> set toks \<and> c = count_list toks w"
  proof clarify
    fix w c assume "(w, c) \<in> set ?res"
    then have m: "(w, c) \<in> set (tally toks)" using set_ys by (auto dest: in_set_takeD)
    then have "w \<in> set (map fst (tally toks))" by force
    then show "w \<in> set toks \<and> c = count_list toks w"
      using tally_keys[of toks] tally_count[OF m] by simp
  qed
  have 3: "length ?res = min (nat n) (card (set toks))"
    by (simp add: sorted_reverse_def length_tally min.commute)
  have 4: "\<forall>w \<in> set toks. w \<notin> fst ` set ?res \<longrightarrow>
           (\<forall>e \<in> set ?res. ranked_before toks e (w, count_list toks w))"
  proof (intro ballI impI)
    fix w e assume w: "w \<in> set toks" "w \<notin> fst ` set ?res" and e: "e \<in> set ?res"
    have "(w, count_list toks w) \<in> set ?ys" using tally_member[OF w(1)] set_ys by simp
    then have "(w, count_list toks w) \<in> set (take (nat n) ?ys) \<union> set (drop (nat n) ?ys)"
      by (metis append_take_drop_id set_append)
    moreover have "(w, count_list toks w) \<notin> set ?res" using w(2) by force
    ultimately have d: "(w, count_list toks w) \<in> set (drop (nat n) ?ys)" by simp
    have "sorted_wrt (ranked_before toks) (take (nat n) ?ys @ drop (nat n) ?ys)"
      using s by simp
    then show "ranked_before toks e (w, count_list toks w)"
      using e d unfolding sorted_wrt_append by blast
  qed
  show ?thesis unfolding res top_n_of_def using 1 2 3 4 by blast
qed

lemma most_common_all:
  "int (length c) < n \<Longrightarrow> most_common n c = sorted_reverse snd c"
  by (simp add: most_common_def sorted_reverse_def)

lemma top_all_tokens:
  assumes "int (card (set toks)) < n"
  shows "length (most_common n (tally toks)) = card (set toks)
    \<and> fst ` set (most_common n (tally toks)) = set toks
    \<and> (\<forall>(w, c) \<in> set (most_common n (tally toks)). c = count_list toks w)"
proof -
  have eq: "most_common n (tally toks) = sorted_reverse snd (tally toks)"
    using assms by (simp add: most_common_all length_tally)
  have s: "set (sorted_reverse snd (tally toks)) = set (tally toks)"
    by (simp add: sorted_reverse_def)
  have k: "fst ` set (tally toks) = set toks" using tally_keys[of toks] by simp
  show ?thesis unfolding eq s
    using k tally_count[of _ _ toks] by (auto simp: sorted_reverse_def length_tally)
qed

subsection \<open>The example chat\<close>

lemma example_word_tokens:
  "word_tokens ascii_platform example_chat = [lit ''hello'', lit ''hello'', lit ''world'', lit ''world'']"
  by (simp add: word_tokens_def example_chat_def msg_alice_def msg_bob_def extract_words_def
      is_word_char_def lit_def ascii_platform_def STOPWORDS_def)

lemma example_emoji_tokens:
  "emoji_tokens example_chat = [[0x1F600, 0x1F600], [0x1F601]]"
  by (simp add: emoji_tokens_def example_chat_def msg_alice_def msg_bob_def extract_emojis_def
      is_emoji_char_def lit_def)

lemma example_tally_words:
  "tally [lit ''hello'', lit ''hello'', lit ''world'', lit ''world'']
     = [(lit ''hello'', 2), (lit ''world'', 2)]"
  by (simp add: tally_def lit_def)

lemma example_tally_emojis:
  "tally [[0x1F600, 0x1F600], [0x1F601 :: nat]] = [([0x1F600, 0x1F600], 1), ([0x1F601], 1)]"
  by (simp add: tally_def)

lemma example_top_words:
  "0 < n \<Longrightarrow> top_words ascii_platform example_chat n
     = take (nat n) [(lit ''hello'', 2), (lit ''world'', 2)]"
  unfolding top_words_tally example_word_tokens example_tally_words
  by (simp add: most_common_def sorted_reverse_def)

lemma example_top_emojis:
  "0 < n \<Longrightarrow> top_emojis example_chat n = take (nat n) [([0x1F600, 0x1F600], 1), ([0x1F601], 1)]"
  unfolding top_emojis_tally example_emoji_tokens example_tally_emojis
  by (simp add: most_common_def sorted_reverse_def)

section \<open>Claims on the top-N lists\<close>

text \<open>
  C2. For every message sequence and every \<open>n\<close>, \<open>top_words\<close> and \<open>top_emojis\<close>
  return the top \<open>n\<close> items in the order of descending count, items with equal
  counts in the order in which they were first met while counting.
\<close>

theorem top_n_stable_order:
  "top_n_of (word_tokens P messages) n (top_words P messages n)
   \<and> top_n_of (emoji_tokens messages) n (top_emojis messages n)"
  by (simp add: top_words_tally top_emojis_tally most_common_top_n)

theorem top_n_stable_order_witness:
  "top_words ascii_platform example_chat 2 = [(lit ''hello'', 2), (lit ''world'', 2)]
   \<and> top_emojis example_chat 1 = [([0x1F600, 0x1F600], 1)]
   \<and> top_n_of [lit ''hello'', lit ''hello'', lit ''world'', lit ''world''] 2
         [(lit ''hello'', 2), (lit ''world'', 2)]
   \<and> top_n_of [[0x1F600, 0x1F600], [0x1F601 :: nat]] 1 [([0x1F600, 0x1F600], 1)]"
  using top_n_stable_order[of ascii_platform example_chat 2]
    top_n_stable_order[of ascii_platform example_chat 1]
  by (simp add: example_top_words example_top_emojis example_word_tokens example_emoji_tokens)

text \<open>
  C7. \<open>top_words\<close> and \<open>top_emojis\<close> return the empty list for \<open>n \<le> 0\<close>; when
  there are fewer than \<open>n\<close> distinct items they return all of them, each once and
  with its count; and on the empty message sequence every aggregator returns the
  empty mapping or the empty list.
\<close>

theorem top_n_edge_cases:
  "(n \<le> 0 \<longrightarrow> top_words P messages n = [] \<and> top_emojis messages n = [])
   \<and> (int (card (set (word_tokens P messages))) < n \<longrightarrow>
        length (top_words P messages n) = card (set (word_tokens P messages))
        \<and> fst ` set (top_words P messages n) = set (word_tokens P messages)
        \<and> (\<forall>(w, c) \<in> set (top_words P messages n). c = count_list (word_tokens P messages) w))
   \<and> (int (card (set (emoji_tokens messages))) < n \<longrightarrow>
        length (top_emojis messages n) = card (set (emoji_tokens messages))
        \<and> fst ` set (top_emojis messages n) = set (emoji_tokens messages)
        \<and> (\<forall>(w, c) \<in> set (top_emojis messages n). c = count_list (emoji_tokens messages) w))
   \<and> message_counts [] = [] \<and> messages_by_day P [] = []
   \<and> messages_by_hour [] = [] \<and> messages_by_weekday [] = []
   \<and> top_words P [] n = [] \<and> top_emojis [] n = []"
proof -
  have 1: "n \<le> 0 \<longrightarrow> top_words P messages n = [] \<and> top_emojis messages n = []"
    by (simp add: top_words_def top_emojis_def most_common_def)
  have 2: "int (card (set (word_tokens P messages))) < n \<longrightarrow>
        length (top_words P messages n) = card (set (word_tokens P messages))
        \<and> fst ` set (top_words P messages n) = set (word_tokens P messages)
        \<and> (\<forall>(w, c) \<in> set (top_words P messages n). c = count_list (word_tokens P messages) w)"
    unfolding top_words_tally using top_all_tokens by blast
  have 3: "int (card (set (emoji_tokens messages))) < n \<longrightarrow>
        length (top_emojis messages n) = card (set (emoji_tokens messages))
        \<and> fst ` set (top_emojis messages n) = set (emoji_tokens messages)
        \<and> (\<forall>(w, c) \<in> set (top_emojis messages n). c = count_list (emoji_tokens messages) w)"
    unfolding top_emojis_tally using top_all_tokens by blast
  have 4: "message_counts [] = [] \<and> messages_by_day P [] = []
      \<and> messages_by_hour [] = [] \<and> messages_by_weekday [] = []"
    by (simp add: message_counts_def messages_by_day_def messages_by_hour_def
        messages_by_weekday_def)
  have 5: "top_words P [] n = [] \<and> top_emojis [] n = []"
    by (simp add: top_words_def top_emojis_def most_common_def sorted_reverse_def)
  show ?thesis using 1 2 3 4 5 by blast
qed

theorem top_n_edge_cases_witness:
  "top_words ascii_platform example_chat 0 = [] \<and> top_emojis example_chat 0 = []
   \<and> card (set (word_tokens ascii_platform example_chat)) = 2
   \<and> length (top_words ascii_platform example_chat 5) = 2
   \<and> fst ` set (top_words ascii_platform example_chat 5) = {lit ''hello'', lit ''world''}
   \<and> card (set (emoji_tokens example_chat)) = 2
   \<and> length (top_emojis example_chat 5) = 2
   \<and> fst ` set (top_emojis example_chat 5) = {[0x1F600, 0x1F600], [0x1F601]}"
proof -
  have w: "card (set (word_tokens ascii_platform example_chat)) = 2"
    by (simp add: example_word_tokens lit_def)
  have e: "card (set (emoji_tokens example_chat)) = 2"
    by (simp add: example_emoji_tokens)
  show ?thesis
    using top_n_edge_cases[of 0 ascii_platform example_chat]
      top_n_edge_cases[of 5 ascii_platform example_chat] w e
    by (simp add: example_word_tokens example_emoji_tokens)
qed

subsection \<open>The first maximum\<close>

lemma foldl_max_first:
  "foldl (\<lambda>best y. if key best < key y then y else best) x ys = m \<Longrightarrow>
   \<exists>pre post. x # ys = pre @ m # post \<and> (\<forall>y\<in>set pre. key y < key m)
     \<and> (\<forall>y\<in>set post. key y \<le> (key m :: nat))"
proof (induction ys arbitrary: x)
  case Nil
  then have "x # [] = [] @ m # []" by simp
  then show ?case by (metis empty_iff list.set(1))
next
  case (Cons y ys)
  show ?case
  proof (cases "key x < key y")
    case True
    with Cons.prems have "foldl (\<lambda>best y. if key best < key y then y else best) y ys = m" by simp
    from Cons.IH[OF this] obtain pre post where
      d: "y # ys = pre @ m # post" and p: "\<forall>z\<in>set pre. key z < key m"
      and q: "\<forall>z\<in>set post. key z \<le> key m" by blast
    have "key y \<le> key m" using d p by (cases pre) auto
    with True have "\<forall>z\<in>set (x # pre). key z < key m" using p by auto
    moreover have "x # y # ys = (x # pre) @ m # post" using d by simp
    ultimately show ?thesis using q by blast
  next
    case False
    with Cons.prems have "foldl (\<lambda>best y. if key best < key y then y else best) x ys = m" by simp
    from Cons.IH[OF this] obtain pre post where
      d: "x # ys = pre @ m # post" and p: "\<forall>z\<in>set pre. key z < key m"
      and q: "\<forall>z\<in>set post. key z \<le> key m" by blast
    show ?thesis
    proof (cases pre)
      case Nil
      with d have "x = m" "ys = post" by auto
      then have "x # y # ys = [] @ m # (y # post)" by simp
      moreover have "\<forall>z\<in>set (y # post). key z \<le> key m" using q False \<open>x = m\<close> by auto
      ultimately show ?thesis by (metis empty_iff list.set(1))
    next
      case (Cons a pre')
      with d have "a = x" "ys = pre' @ m # post" by auto
      then have "x # y # ys = (x # y # pre') @ m # post" by simp
      moreover have "\<forall>z\<in>set (x # y # pre'). key z < key m"
        using p Cons \<open>a = x\<close> False by auto
      ultimately show ?thesis using q by blast
    qed
  qed
qed

lemma max_by_tally:
  assumes "ks \<noteq> []"
  shows "\<exists>kv. max_by snd (tally ks) = Inr kv \<and> first_most_frequent ks (fst kv)"
proof -
  have ne: "tally ks \<noteq> []" using assms length_tally[of ks] by (cases ks) auto
  then obtain x ys where xy: "tally ks = x # ys" by (cases "tally ks") auto
  define m where "m = foldl (\<lambda>best y. if snd best < snd y then y else best) x ys"
  have mb: "max_by snd (tally ks) = Inr m" by (simp add: max_by_def xy m_def)
  from foldl_max_first[OF m_def[symmetric]] obtain pre post where
    d: "tally ks = pre @ m # post" and p: "\<forall>z\<in>set pre. snd z < snd m"
    and q: "\<forall>z\<in>set post. snd z \<le> snd m" unfolding xy by blast
  have mem: "m \<in> set (tally ks)" using d by simp
  have cm: "snd m = count_list ks (fst m)" using tally_count[of "fst m" "snd m" ks] mem by simp
  have km: "fst m \<in> set ks" using mem tally_keys[of ks] by force
  have ord: "sorted_wrt (\<lambda>a b. first_pos ks (fst a) < first_pos ks (fst b)) (pre @ m # post)"
    using tally_order[of ks] unfolding d[symmetric] by (simp add: sorted_wrt_map)
  have "\<forall>k' \<in> set ks. count_list ks k' \<le> count_list ks (fst m)
           \<and> (count_list ks k' = count_list ks (fst m) \<longrightarrow> first_pos ks (fst m) \<le> first_pos ks k')"
  proof
    fix k' assume "k' \<in> set ks"
    then have in_t: "(k', count_list ks k') \<in> set (tally ks)" by (rule tally_member)
    then consider "(k', count_list ks k') \<in> set pre" | "(k', count_list ks k') = m"
      | "(k', count_list ks k') \<in> set post" unfolding d by auto
    then show "count_list ks k' \<le> count_list ks (fst m)
           \<and> (count_list ks k' = count_list ks (fst m) \<longrightarrow> first_pos ks (fst m) \<le> first_pos ks k')"
    proof cases
      case 1
      with p have "count_list ks k' < snd m" by force
      then show ?thesis using cm by simp
    next
      case 2
      then have "fst m = k'" by (metis fst_conv)
      then show ?thesis by simp
    next
      case 3
      with q have "count_list ks k' \<le> snd m" by force
      moreover have "first_pos ks (fst m) < first_pos ks k'"
        using ord 3 unfolding sorted_wrt_append by force
      ultimately show ?thesis using cm by simp
    qed
  qed
  then have "first_most_frequent ks (fst m)" using km by (simp add: first_most_frequent_def)
  with mb show ?thesis by blast
qed

lemma messages_by_hour_tally:
  "messages_by_hour messages = tally (map (\<lambda>msg. hour (timestamp msg)) messages)"
  by (simp add: messages_by_hour_def tally_def foldl_map)

lemma messages_by_weekday_tally:
  "messages_by_weekday messages = tally (map (\<lambda>msg. weekday (timestamp msg)) messages)"
  by (simp add: messages_by_weekday_def tally_def foldl_map)

lemma message_counts_tally:
  "message_counts messages = tally (map sender messages)"
  by (simp add: message_counts_def tally_def foldl_map)

lemma example_by_hour: "messages_by_hour example_chat = [(21, 1), (10, 1)]"
  by (simp add: messages_by_hour_def example_chat_def msg_alice_def msg_bob_def)

lemma example_weekdays:
  "weekday (timestamp msg_alice) = 1 \<and> weekday (timestamp msg_bob) = 0"
  by (simp add: msg_alice_def msg_bob_def weekday_def toordinal_def
      days_before_year_def days_before_month_def is_leap_def)

lemma example_by_weekday: "messages_by_weekday example_chat = [(1, 1), (0, 1)]"
  by (simp add: messages_by_weekday_def example_chat_def example_weekdays)

lemma example_peak_hour: "peak_hour example_chat = Inr 21"
  by (simp add: peak_hour_def example_by_hour max_by_def)

lemma example_peak_weekday: "peak_weekday example_chat = Inr 1"
  by (simp add: peak_weekday_def example_by_weekday max_by_def)

section \<open>Claims on the peak hour and weekday\<close>

text \<open>
  C1, as stated, fails: in the example chat the hours 21 and 10 have one message each,
  and the selected peak hour is 21, the hour met first, not the smaller hour 10;
  likewise the selected weekday is Tuesday (1) and not Monday (0).
\<close>

theorem peak_smallest_key_counterexample:
  "peak_hour example_chat = Inr 21
   \<and> messages_by_hour example_chat = [(21, 1), (10, 1)]
   \<and> smallest_max_key (messages_by_hour example_chat) = 10
   \<and> peak_weekday example_chat = Inr 1
   \<and> messages_by_weekday example_chat = [(1, 1), (0, 1)]
   \<and> smallest_max_key (messages_by_weekday example_chat) = 0"
  by (simp add: example_peak_hour example_peak_weekday example_by_hour example_by_weekday
      smallest_max_key_def)

text \<open>
  C1, amended. On a non-empty message sequence the selected peak hour is an hour with
  the maximal per-hour count, and among the hours with that count the one whose first
  message comes first in the sequence; the same holds for the peak weekday.
\<close>

theorem peak_first_most_frequent:
  "messages \<noteq> [] \<Longrightarrow>
     (\<exists>h. peak_hour messages = Inr h
        \<and> first_most_frequent (map (\<lambda>msg. hour (timestamp msg)) messages) h)
     \<and> (\<exists>d. peak_weekday messages = Inr d
        \<and> first_most_frequent (map (\<lambda>msg. weekday (timestamp msg)) messages) d)"
proof -
  assume ne: "messages \<noteq> []"
  have h: "map (\<lambda>msg. hour (timestamp msg)) messages \<noteq> []" using ne by simp
  have d: "map (\<lambda>msg. weekday (timestamp msg)) messages \<noteq> []" using ne by simp
  from max_by_tally[OF h] max_by_tally[OF d] show ?thesis
    unfolding peak_hour_def peak_weekday_def messages_by_hour_tally messages_by_weekday_tally
    by (auto simp: Let_def)
qed

theorem peak_first_most_frequent_witness:
  "example_chat \<noteq> [] \<and> peak_hour example_chat = Inr 21 \<and> first_most_frequent [21, 10 :: nat] 21
   \<and> peak_weekday example_chat = Inr 1 \<and> first_most_frequent [1, 0 :: nat] 1"
proof -
  have ne: "example_chat \<noteq> []" by (simp add: example_chat_def)
  have hs: "map (\<lambda>msg. hour (timestamp msg)) example_chat = [21, 10]"
    by (simp add: example_chat_def msg_alice_def msg_bob_def)
  have ws: "map (\<lambda>msg. weekday (timestamp msg)) example_chat = [1, 0]"
    by (simp add: example_chat_def example_weekdays)
  show ?thesis using peak_first_most_frequent[OF ne] ne
    by (simp add: example_peak_hour example_peak_weekday hs ws)
qed

section \<open>Properties of the double precision arithmetic\<close>

lemma pow2_powi: "pow2 e = 2 powi e"
  by (simp add: pow2_def power_int_def inverse_eq_divide power_one_over)

lemma pow2_pos: "0 < pow2 e"
  by (simp add: pow2_powi)

lemma pow2_add: "pow2 (a + b) = pow2 a * pow2 b"
  by (simp add: pow2_powi power_int_add)

lemma pow2_diff: "pow2 (a - b) = pow2 a / pow2 b"
  by (simp add: pow2_powi power_int_diff)

lemma pow2_nat: "pow2 (int n) = 2 ^ n"
  by (simp add: pow2_def)

lemma pow2_mono: "a \<le> b \<Longrightarrow> pow2 a \<le> pow2 b"
  by (simp add: pow2_powi power_int_increasing)

lemma round_half_even_error: "\<bar>of_int (round_half_even x) - x\<bar> \<le> 1 / 2"
  unfolding round_half_even_def Let_def
  by (auto simp: abs_if) linarith+

lemma round_half_even_tie:
  "\<bar>of_int (round_half_even x) - x\<bar> = 1 / 2 \<Longrightarrow> even (round_half_even x)"
  unfolding round_half_even_def Let_def
  by (auto simp: abs_if split: if_splits) linarith+

lemma ilog2_lower:
  assumes "x \<noteq> 0"
  shows "pow2 (ilog2 x) \<le> \<bar>x\<bar>"
proof -
  obtain a b where ab: "quotient_of \<bar>x\<bar> = (a, b)" by (cases "quotient_of \<bar>x\<bar>")
  have b: "0 < b" using ab quotient_of_denom_pos by blast
  have xab: "\<bar>x\<bar> = of_int a / of_int b" using ab by (rule quotient_of_div)
  have "0 < \<bar>x\<bar>" using assms by simp
  then have a: "0 < a" using b xab by (simp add: zero_less_divide_iff)
  let ?d = "bitlen a - bitlen b"
  show ?thesis
  proof (cases "pow2 ?d \<le> \<bar>x\<bar>")
    case True
    then show ?thesis by (simp add: ilog2_def ab)
  next
    case False
    have la: "(2::int) ^ nat (bitlen a - 1) \<le> a" using bitlen_bounds[OF a] by simp
    have lb: "b < 2 ^ nat (bitlen b)" using bitlen_bounds[OF b] by simp
    have la1: "1 \<le> bitlen a" using a bitlen_eq_zero_iff[of a] bitlen_nonneg[of a] by linarith
    have lb0: "0 \<le> bitlen b" by (rule bitlen_nonneg)
    have A: "pow2 (bitlen a - 1) \<le> of_int a"
    proof -
      have "pow2 (bitlen a - 1) = of_int (2 ^ nat (bitlen a - 1))"
        using la1 by (simp add: pow2_def)
      also have "\<dots> \<le> of_int a" using la by (simp only: of_int_le_iff)
      finally show ?thesis .
    qed
    have B: "of_int b \<le> pow2 (bitlen b)"
    proof -
      have "(of_int b :: rat) \<le> of_int (2 ^ nat (bitlen b))" using lb by (simp only: of_int_le_iff)
      also have "\<dots> = pow2 (bitlen b)" using lb0 by (simp add: pow2_def)
      finally show ?thesis .
    qed
    have "pow2 (?d - 1) = pow2 (bitlen a - 1) / pow2 (bitlen b)"
      using pow2_diff[of "bitlen a - 1" "bitlen b"] by (simp add: algebra_simps)
    also have "\<dots> \<le> of_int a / pow2 (bitlen b)"
      using A pow2_pos[of "bitlen b"] by (simp add: divide_right_mono)
    also have "\<dots> \<le> of_int a / of_int b"
      using B a b by (simp add: frac_le)
    finally have "pow2 (?d - 1) \<le> \<bar>x\<bar>" unfolding xab .
    moreover have "ilog2 x = ?d - 1" using False by (simp add: ilog2_def ab)
    ultimately show ?thesis by simp
  qed
qed

lemma ilog2_upper:
  assumes "x \<noteq> 0"
  shows "\<bar>x\<bar> < pow2 (ilog2 x + 1)"
proof -
  obtain a b where ab: "quotient_of \<bar>x\<bar> = (a, b)" by (cases "quotient_of \<bar>x\<bar>")
  have b: "0 < b" using ab quotient_of_denom_pos by blast
  have xab: "\<bar>x\<bar> = of_int a / of_int b" using ab by (rule quotient_of_div)
  have "0 < \<bar>x\<bar>" using assms by simp
  then have a: "0 < a" using b xab by (simp add: zero_less_divide_iff)
  let ?d = "bitlen a - bitlen b"
  show ?thesis
  proof (cases "pow2 ?d \<le> \<bar>x\<bar>")
    case False
    then have "ilog2 x = ?d - 1" by (simp add: ilog2_def ab)
    then show ?thesis using False by simp
  next
    case True
    then have il: "ilog2 x = ?d" by (simp add: ilog2_def ab)
    have la: "a < 2 ^ nat (bitlen a)" using bitlen_bounds[OF a] by simp
    have lb: "(2::int) ^ nat (bitlen b - 1) \<le> b" using bitlen_bounds[OF b] by simp
    have lb1: "1 \<le> bitlen b" using b bitlen_eq_zero_iff[of b] bitlen_nonneg[of b] by linarith
    have la0: "0 \<le> bitlen a" by (rule bitlen_nonneg)
    have A: "of_int a < pow2 (bitlen a)"
    proof -
      have "(of_int a :: rat) < of_int (2 ^ nat (bitlen a))" using la by (simp only: of_int_less_iff)
      also have "\<dots> = pow2 (bitlen a)" using la0 by (simp add: pow2_def)
      finally show ?thesis .
    qed
    have B: "pow2 (bitlen b - 1) \<le> of_int b"
    proof -
      have "pow2 (bitlen b - 1) = of_int (2 ^ nat (bitlen b - 1))" using lb1 by (simp add: pow2_def)
      also have "\<dots> \<le> of_int b" using lb by (simp only: of_int_le_iff)
      finally show ?thesis .
    qed
    have "of_int a / of_int b < pow2 (bitlen a) / of_int b"
      using A b by (simp add: divide_strict_right_mono)
    also have "\<dots> \<le> pow2 (bitlen a) / pow2 (bitlen b - 1)"
      using B pow2_pos[of "bitlen b - 1"] pow2_pos[of "bitlen a"] by (simp add: frac_le)
    also have "\<dots> = pow2 (?d + 1)"
      using pow2_diff[of "bitlen a" "bitlen b - 1"] by (simp add: algebra_simps)
    finally show ?thesis unfolding xab[symmetric] il .
  qed
qed

lemma nearest_binary64_error:
  "\<bar>nearest_binary64 x - x\<bar> \<le> \<bar>x\<bar> / 2 ^ 53 + 1 / 2 ^ 1075"
proof (cases "x = 0")
  case True
  then show ?thesis by (simp add: nearest_binary64_def)
next
  case False
  define e where "e = max (ilog2 x - 52) (- 1074)"
  have y: "nearest_binary64 x = of_int (round_half_even (x / pow2 e)) * pow2 e"
    using False by (simp add: nearest_binary64_def e_def Let_def)
  have p: "0 < pow2 e" by (rule pow2_pos)
  have "nearest_binary64 x - x = (of_int (round_half_even (x / pow2 e)) - x / pow2 e) * pow2 e"
    using p by (simp add: y algebra_simps)
  then have "\<bar>nearest_binary64 x - x\<bar> = \<bar>of_int (round_half_even (x / pow2 e)) - x / pow2 e\<bar> * pow2 e"
    using p by (simp add: abs_mult)
  also have "\<dots> \<le> 1 / 2 * pow2 e"
    using round_half_even_error[of "x / pow2 e"] p by (simp add: mult_right_mono)
  finally have err: "\<bar>nearest_binary64 x - x\<bar> \<le> pow2 e / 2" by simp
  have "pow2 e \<le> \<bar>x\<bar> / 2 ^ 52 + 1 / 2 ^ 1074"
  proof (cases "ilog2 x - 52 \<le> - 1074")
    case True
    then have "e = - 1074" by (simp add: e_def)
    then have "pow2 e = 1 / 2 ^ 1074" by (simp add: pow2_def)
    moreover have "0 \<le> \<bar>x\<bar> / 2 ^ 52" by simp
    ultimately show ?thesis by linarith
  next
    case False
    then have "e = ilog2 x - 52" by (simp add: e_def)
    then have "pow2 e = pow2 (ilog2 x) / pow2 52" by (simp add: pow2_diff)
    also have "\<dots> = pow2 (ilog2 x) / 2 ^ 52" by (simp add: pow2_def)
    also have "\<dots> \<le> \<bar>x\<bar> / 2 ^ 52"
      using ilog2_lower[OF \<open>x \<noteq> 0\<close>] by (simp add: divide_right_mono)
    finally have "pow2 e \<le> \<bar>x\<bar> / 2 ^ 52" .
    moreover have "(0::rat) \<le> 1 / 2 ^ 1074" by simp
    ultimately show ?thesis by linarith
  qed
  then have "pow2 e / 2 \<le> (\<bar>x\<bar> / 2 ^ 52 + 1 / 2 ^ 1074) / 2" by simp
  also have "\<dots> = \<bar>x\<bar> / 2 ^ 53 + 1 / 2 ^ 1075" by simp
  finally show ?thesis using err by linarith
qed

lemma round_double_small:
  "\<bar>x\<bar> \<le> 1000 \<Longrightarrow> round_double x = Fin (nearest_binary64 x)"
proof -
  assume a: "\<bar>x\<bar> \<le> 1000"
  have e: "\<bar>nearest_binary64 x - x\<bar> \<le> \<bar>x\<bar> / 2 ^ 53 + 1 / 2 ^ 1075"
    by (rule nearest_binary64_error)
  have "\<bar>x\<bar> / 2 ^ 53 \<le> \<bar>x\<bar>" by (simp add: divide_le_eq)
  moreover have "(1::rat) / 2 ^ 1075 \<le> 1" by simp
  ultimately have "\<bar>nearest_binary64 x\<bar> \<le> 2001" using a e by linarith
  moreover have "(2001::rat) < 2 ^ 1024" by simp
  ultimately have "\<not> pow2 1024 \<le> \<bar>nearest_binary64 x\<bar>" by (simp add: pow2_def)
  then show ?thesis by (simp add: round_double_def Let_def)
qed

lemma percentage_unit_interval:
  assumes "0 \<le> part" "part \<le> whole" "0 < whole"
  shows "\<exists>r. percentage part whole = Inr r \<and> 0 \<le> r \<and> r \<le> 100"
proof -
  define t :: rat where "t = of_int part / of_int whole"
  have t0: "0 \<le> t" using assms by (simp add: t_def)
  have t1: "t \<le> 1" using assms by (simp add: t_def)
  define q where "q = nearest_binary64 t"
  define x where "x = nearest_binary64 (q * 100)"
  have eq: "\<bar>q - t\<bar> \<le> \<bar>t\<bar> / 2 ^ 53 + 1 / 2 ^ 1075"
    unfolding q_def by (rule nearest_binary64_error)
  have ex: "\<bar>x - q * 100\<bar> \<le> \<bar>q * 100\<bar> / 2 ^ 53 + 1 / 2 ^ 1075"
    unfolding x_def by (rule nearest_binary64_error)
  have qb: "\<bar>q\<bar> \<le> 2" using eq t0 t1 by (simp add: abs_if split: if_splits) 
  have td: "true_div part whole = Inr q"
    using assms round_double_small[of t] t0 t1 by (simp add: true_div_def t_def[symmetric] q_def)
  have fm: "float_mul q 100 = Fin x"
    using round_double_small[of "q * 100"] qb by (simp add: float_mul_def x_def)
  have xr: "- (1 / 4) \<le> x \<and> x \<le> 100 + 1 / 4"
    using eq ex t0 t1 by (simp add: abs_if split: if_splits)
  have r: "\<bar>of_int (round_half_even x) - x\<bar> \<le> 1 / 2" by (rule round_half_even_error)
  have "(of_int (- 1) :: rat) < of_int (round_half_even x)
      \<and> (of_int (round_half_even x) :: rat) < of_int 101"
    using r xr by (simp add: abs_if split: if_splits)
  then have "- 1 < round_half_even x \<and> round_half_even x < 101"
    by (simp only: of_int_less_iff)
  then have "0 \<le> round_half_even x \<and> round_half_even x \<le> 100" by linarith
  moreover have "percentage part whole = Inr (round_half_even x)"
    using assms td fm by (simp add: percentage_def py_round_def)
  ultimately show ?thesis by simp
qed


lemma nearest_binary64_1: "nearest_binary64 1 = 1"
  by code_simp

lemma nearest_binary64_100: "nearest_binary64 100 = 100"
  by code_simp

lemma round_half_even_100: "round_half_even 100 = 100"
  by code_simp

lemma percentage_all:
  assumes "0 < n"
  shows "percentage n n = Inr 100"
proof -
  have "(of_int n :: rat) / of_int n = 1" using assms by simp
  then have td: "true_div n n = Inr 1"
    using assms round_double_small[of 1] by (simp add: true_div_def nearest_binary64_1)
  have fm: "float_mul 1 100 = Fin 100"
    using round_double_small[of 100] by (simp add: float_mul_def nearest_binary64_100)
  show ?thesis using assms td fm
    by (simp add: percentage_def py_round_def round_half_even_100)
qed

lemma percentage_accuracy:
  assumes "true_div part whole = Inr q" and "float_mul q 100 = Fin x"
  shows "\<bar>x - of_int part / of_int whole * 100\<bar>
           \<le> \<bar>of_int part / of_int whole * 100\<bar> / 2 ^ 51 + 1 / 2 ^ 1068"
proof -
  define t :: rat where "t = of_int part / of_int whole"
  have w: "whole \<noteq> 0" using assms(1) by (auto simp: true_div_def split: if_splits)
  have q: "q = nearest_binary64 t"
    using assms(1) w
    by (auto simp: true_div_def round_double_def Let_def t_def split: if_splits)
  have x: "x = nearest_binary64 (q * 100)"
    using assms(2) by (auto simp: float_mul_def round_double_def Let_def split: if_splits)
  have eq: "\<bar>q - t\<bar> \<le> \<bar>t\<bar> / 2 ^ 53 + 1 / 2 ^ 1075"
    unfolding q by (rule nearest_binary64_error)
  have ex: "\<bar>x - q * 100\<bar> \<le> \<bar>q * 100\<bar> / 2 ^ 53 + 1 / 2 ^ 1075"
    unfolding x by (rule nearest_binary64_error)
  define A B T Q G where "A = \<bar>q - t\<bar>" and "B = \<bar>x - q * 100\<bar>" and "T = \<bar>t\<bar>"
    and "Q = \<bar>q * 100\<bar>" and "G = \<bar>x - t * 100\<bar>"
  have m: "\<bar>100 * (q - t)\<bar> = 100 * \<bar>q - t\<bar>" by (subst abs_mult) simp
  have g: "G \<le> B + 100 * A"
  proof -
    have "x - t * 100 = (x - q * 100) + 100 * (q - t)" by simp
    then have "\<bar>x - t * 100\<bar> \<le> \<bar>x - q * 100\<bar> + \<bar>100 * (q - t)\<bar>"
      by (simp only: abs_triangle_ineq)
    then show ?thesis unfolding G_def B_def A_def m .
  qed
  have qq: "Q \<le> 100 * T + 100 * A"
  proof -
    have "q * 100 = 100 * t + 100 * (q - t)" by simp
    then have "\<bar>q * 100\<bar> \<le> \<bar>100 * t\<bar> + \<bar>100 * (q - t)\<bar>"
      by (simp only: abs_triangle_ineq)
    moreover have "\<bar>100 * t\<bar> = 100 * \<bar>t\<bar>" by (subst abs_mult) simp
    ultimately show ?thesis unfolding Q_def T_def A_def m by simp
  qed
  have t0: "0 \<le> T" unfolding T_def by simp
  have eq': "A \<le> T / 2 ^ 53 + 1 / 2 ^ 1075" using eq unfolding A_def T_def .
  have ex': "B \<le> Q / 2 ^ 53 + 1 / 2 ^ 1075" using ex unfolding B_def Q_def .
  have "G \<le> 100 * T / 2 ^ 51 + 1 / 2 ^ 1068" using g qq t0 eq' ex' by simp
  moreover have "\<bar>t * 100\<bar> = 100 * T" unfolding T_def by (simp add: abs_mult)
  ultimately have "\<bar>x - t * 100\<bar> \<le> \<bar>t * 100\<bar> / 2 ^ 51 + 1 / 2 ^ 1068"
    unfolding G_def by simp
  then show ?thesis by (simp add: t_def)
qed

lemma example_true_div: "true_div 1 8 = Inr (1 / 8)"
proof -
  have "nearest_binary64 (1 / 8) = 1 / 8" by code_simp
  then show ?thesis using round_double_small[of "1 / 8"] by (simp add: true_div_def)
qed

lemma example_float_mul: "float_mul (1 / 8) 100 = Fin (25 / 2)"
proof -
  have "nearest_binary64 (25 / 2) = 25 / 2" by code_simp
  then show ?thesis using round_double_small[of "25 / 2"] by (simp add: float_mul_def)
qed

lemma example_percentage: "percentage 1 8 = Inr 12"
proof -
  have "round_half_even (25 / 2) = 12" by code_simp
  then show ?thesis
    by (simp add: percentage_def example_true_div example_float_mul py_round_def)
qed

section \<open>Claims on the percentage\<close>

text \<open>
  C3, as stated, fails: \<open>1 / 8 * 100\<close> is exactly 12.5, which \<open>round\<close> takes to
  the even neighbour 12, while rounding a half away from zero gives 13.
\<close>

theorem percentage_half_away_counterexample:
  "percentage 1 8 = Inr 12 \<and> round_half_away (1 / 8 * 100) = 13"
  by (simp add: example_percentage round_half_away_def)

text \<open>
  C3, amended. \<open>_percentage(part, whole)\<close> is 0 when \<open>whole\<close> is zero. Otherwise
  its result is the double \<open>part / whole * 100\<close>, which lies within a relative error
  of \<open>2 ^ -51\<close> (and \<open>2 ^ -1068\<close> absolute) of the exact value, rounded to the
  nearest integer with a half rounded to the even neighbour. For
  \<open>0 \<le> part \<le> whole\<close> it returns a value from 0 to 100.
\<close>

theorem percentage_half_even:
  "percentage part 0 = Inr 0
   \<and> (whole \<noteq> 0 \<and> percentage part whole = Inr r \<longrightarrow>
        (\<exists>q x. true_div part whole = Inr q \<and> float_mul q 100 = Fin x
           \<and> \<bar>x - of_int part / of_int whole * 100\<bar>
                 \<le> \<bar>of_int part / of_int whole * 100\<bar> / 2 ^ 51 + 1 / 2 ^ 1068
           \<and> \<bar>of_int r - x\<bar> \<le> 1 / 2
           \<and> (\<bar>of_int r - x\<bar> = 1 / 2 \<longrightarrow> even r)))
   \<and> (0 \<le> part \<and> part \<le> whole \<and> 0 < whole \<longrightarrow>
        (\<exists>r'. percentage part whole = Inr r' \<and> 0 \<le> r' \<and> r' \<le> 100))"
proof -
  have 1: "percentage part 0 = Inr 0" by (simp add: percentage_def)
  have 2: "whole \<noteq> 0 \<and> percentage part whole = Inr r \<longrightarrow>
        (\<exists>q x. true_div part whole = Inr q \<and> float_mul q 100 = Fin x
           \<and> \<bar>x - of_int part / of_int whole * 100\<bar>
                 \<le> \<bar>of_int part / of_int whole * 100\<bar> / 2 ^ 51 + 1 / 2 ^ 1068
           \<and> \<bar>of_int r - x\<bar> \<le> 1 / 2
           \<and> (\<bar>of_int r - x\<bar> = 1 / 2 \<longrightarrow> even r))"
  proof
    assume a: "whole \<noteq> 0 \<and> percentage part whole = Inr r"
    then obtain q where q: "true_div part whole = Inr q"
      by (cases "true_div part whole") (auto simp: percentage_def)
    from a have "percentage part whole = Inr r" and "whole \<noteq> 0" by simp_all
    then have pr: "py_round (float_mul q 100) = Inr r" by (simp add: percentage_def q)
    then obtain x where x: "float_mul q 100 = Fin x"
      by (cases "float_mul q 100") (auto simp: py_round_def)
    with pr have r: "r = round_half_even x" by (simp add: py_round_def)
    show "\<exists>q x. true_div part whole = Inr q \<and> float_mul q 100 = Fin x
           \<and> \<bar>x - of_int part / of_int whole * 100\<bar>
                 \<le> \<bar>of_int part / of_int whole * 100\<bar> / 2 ^ 51 + 1 / 2 ^ 1068
           \<and> \<bar>of_int r - x\<bar> \<le> 1 / 2
           \<and> (\<bar>of_int r - x\<bar> = 1 / 2 \<longrightarrow> even r)"
      using q x percentage_accuracy[OF q x] round_half_even_error[of x]
        round_half_even_tie[of x] unfolding r by blast
  qed
  have 3: "0 \<le> part \<and> part \<le> whole \<and> 0 < whole \<longrightarrow>
        (\<exists>r'. percentage part whole = Inr r' \<and> 0 \<le> r' \<and> r' \<le> 100)"
    using percentage_unit_interval by blast
  show ?thesis using 1 2 3 by blast
qed

theorem percentage_half_even_witness:
  "(8::int) \<noteq> 0 \<and> percentage 1 8 = Inr 12 \<and> (0::int) \<le> 1 \<and> (1::int) \<le> 8
   \<and> true_div 1 8 = Inr (1 / 8) \<and> float_mul (1 / 8) 100 = Fin (25 / 2)
   \<and> \<bar>of_int 12 - (25 / 2 :: rat)\<bar> = 1 / 2 \<and> even (12 :: int)"
  using percentage_half_even[of 1 8 12]
  by (simp add: example_percentage example_true_div example_float_mul)

section \<open>Properties of the roast engine\<close>

lemma tally_single_key:
  assumes "ks \<noteq> []" and "\<forall>k\<in>set ks. k = s"
  shows "tally ks = [(s, length ks)]"
proof -
  have set_ks: "set ks = {s}" using assms by (cases ks) auto
  have "length (tally ks) = 1" using length_tally[of ks] set_ks by simp
  then obtain x where x: "tally ks = [x]" by (cases "tally ks") auto
  have "fst x \<in> set ks" using tally_keys[of ks] x by auto
  then have fx: "fst x = s" using assms(2) by simp
  have "snd x = count_list ks (fst x)" using tally_count[of "fst x" "snd x" ks] x by simp
  moreover have "count_list ks s = length ks" using assms(2) by (induction ks) auto
  ultimately show ?thesis using x fx by (cases x) simp
qed

lemma peak_hour_returns: "messages \<noteq> [] \<Longrightarrow> \<exists>h. peak_hour messages = Inr h"
proof -
  assume "messages \<noteq> []"
  then have "map (\<lambda>msg. hour (timestamp msg)) messages \<noteq> []" by simp
  from max_by_tally[OF this] show ?thesis
    by (auto simp: peak_hour_def messages_by_hour_tally)
qed

lemma peak_weekday_returns: "messages \<noteq> [] \<Longrightarrow> \<exists>d. peak_weekday messages = Inr d"
proof -
  assume "messages \<noteq> []"
  then have "map (\<lambda>msg. weekday (timestamp msg)) messages \<noteq> []" by simp
  from max_by_tally[OF this] show ?thesis
    by (auto simp: peak_weekday_def messages_by_weekday_tally)
qed

lemma sender_stats_single:
  assumes "messages \<noteq> []" and "\<forall>m\<in>set messages. sender m = s"
  shows "sender_stats messages = Inr ((s, 100), (s, 100))"
proof -
  have "tally (map sender messages) = [(s, length (map sender messages))]"
    using assms by (intro tally_single_key) auto
  then have c: "message_counts messages = [(s, length messages)]"
    by (simp add: message_counts_tally)
  have p: "percentage (int (length messages)) (int (length messages)) = Inr 100"
    using assms(1) by (intro percentage_all) simp
  show ?thesis by (simp add: sender_stats_def c sorted_reverse_def p)
qed

lemma str_int_100: "str_int 100 = lit ''100''"
  by (simp add: str_int_def str_nat.simps lit_def)

lemma lit_append: "lit (a @ b) = lit a @ lit b"
  by (simp add: lit_def)

lemma top_sender_line_100:
  "\<exists>a b. top_sender_line L s 100 = s @ a @ lit ''100%'' @ b"
proof -
  have "lit ''100%'' = str_int 100 @ lit ''%''" by (simp add: str_int_100 lit_def)
  then have "\<And>a b. s @ a @ str_int 100 @ lit ''%'' @ b = s @ a @ lit ''100%'' @ b" by simp
  then have "\<And>a b. \<exists>a' b'. s @ a @ str_int 100 @ lit (''%'' @ b) = s @ a' @ lit ''100%'' @ b'"
    unfolding lit_append by blast
  then show ?thesis unfolding top_sender_line_def by (simp del: append_assoc)
qed

lemma bottom_sender_line_100:
  "\<exists>a b. bottom_sender_line L s 100 = s @ a @ lit ''100%'' @ b"
proof -
  have "lit ''100%'' = str_int 100 @ lit ''%''" by (simp add: str_int_100 lit_def)
  then have "\<And>a b. s @ a @ str_int 100 @ lit ''%'' @ b = s @ a @ lit ''100%'' @ b" by simp
  then have "\<And>a b. \<exists>a' b'. s @ a @ str_int 100 @ lit (''%'' @ b) = s @ a' @ lit ''100%'' @ b'"
    unfolding lit_append by blast
  then show ?thesis unfolding bottom_sender_line_def by (simp del: append_assoc)
qed

section \<open>Claims on the roast text\<close>

text \<open>
  C10. For every non-empty message sequence whose messages all have the same sender,
  \<open>generate_roast\<close> returns a text whose first line is the top-sender template and
  whose second line is the bottom-sender template, both naming that sender with the
  percentage 100.
\<close>

theorem single_sender_roast:
  assumes "messages \<noteq> []" and "\<forall>m\<in>set messages. sender m = s"
  shows "\<exists>top_line bottom_line rest a b c d.
           generate_roast P messages level = Inr (join [10] (top_line # bottom_line # rest))
           \<and> top_line = top_sender_line (roast_level P level) s 100
           \<and> bottom_line = bottom_sender_line (roast_level P level) s 100
           \<and> top_line = s @ a @ lit ''100%'' @ b
           \<and> bottom_line = s @ c @ lit ''100%'' @ d"
proof -
  obtain h where h: "peak_hour messages = Inr h" using peak_hour_returns[OF assms(1)] by blast
  obtain d where d: "peak_weekday messages = Inr d"
    using peak_weekday_returns[OF assms(1)] by blast
  define L where "L = roast_level P level"
  define rest where "rest = peak_line L (format_hour h)
      (case WEEKDAY_NAMES d of Some name \<Rightarrow> name | None \<Rightarrow> lit ''Unknown day'')
    # emoji_lines L (first_or_none (top_emojis messages 1))
    @ word_lines L (first_or_none (top_words P messages 1))"
  have rl: "roast_lines P messages L
      = Inr (top_sender_line L s 100 # bottom_sender_line L s 100 # rest)"
    by (simp add: roast_lines_def sender_stats_single[OF assms] h d Let_def rest_def)
  have "generate_roast P messages level
      = Inr (join [10] (top_sender_line L s 100 # bottom_sender_line L s 100 # rest))"
    using assms(1) by (simp add: generate_roast_def L_def[symmetric] rl Let_def del: join.simps)
  then show ?thesis
    using top_sender_line_100[of L s] bottom_sender_line_100[of L s] unfolding L_def by blast
qed

lemma roast_level_medium: "roast_level ascii_platform (lit ''medium'') = lit ''medium''"
  by (simp add: roast_level_def ascii_platform_def lit_def)

theorem single_sender_roast_witness:
  "[msg_bob] \<noteq> [] \<and> sender msg_bob = lit ''Bob''
   \<and> (\<exists>rest. generate_roast ascii_platform [msg_bob] (lit ''medium'')
         = Inr (join [10]
             (lit ''Bob dominated the chat with 100% of the messages. Maybe let someone else get a word in?''
              # lit ''Bob clocked in at just 100% of messages. Do you even know this chat exists?''
              # rest)))"
proof -
  have s: "\<forall>m\<in>set [msg_bob]. sender m = lit ''Bob''" by (simp add: msg_bob_def)
  have t: "top_sender_line (lit ''medium'') (lit ''Bob'') 100
      = lit ''Bob dominated the chat with 100% of the messages. Maybe let someone else get a word in?''"
    by (simp add: top_sender_line_def str_int_100) (simp add: lit_def)
  have b: "bottom_sender_line (lit ''medium'') (lit ''Bob'') 100
      = lit ''Bob clocked in at just 100% of messages. Do you even know this chat exists?''"
    by (simp add: bottom_sender_line_def str_int_100) (simp add: lit_def)
  from single_sender_roast[OF _ s, of ascii_platform "lit ''medium''"]
  show ?thesis unfolding roast_level_medium t b by (auto simp: msg_bob_def)
qed

subsection \<open>The lines of the roast\<close>

lemma sender_stats_returns:
  assumes "messages \<noteq> []"
  shows "\<exists>ts tp bs bp. sender_stats messages = Inr ((ts, tp), (bs, bp))"
proof -
  let ?ks = "map sender messages"
  let ?sc = "sorted_reverse snd (message_counts messages)"
  have set_sc: "set ?sc = set (tally ?ks)"
    by (simp add: sorted_reverse_def message_counts_tally)
  have "length ?sc = card (set ?ks)"
    by (simp add: sorted_reverse_def message_counts_tally length_tally)
  moreover have "0 < card (set ?ks)" using assms by (simp add: card_gt_0_iff)
  ultimately have ne: "?sc \<noteq> []" by auto
  have bound: "\<exists>r. percentage (int c) (int (length messages)) = Inr r"
    if "(k, c) \<in> set ?sc" for k c
  proof -
    have "c = count_list ?ks k" using that set_sc tally_count by fastforce
    then have "c \<le> length messages" using count_le_length[of ?ks k] by simp
    then show ?thesis using percentage_unit_interval[of "int c" "int (length messages)"] assms
      by auto
  qed
  obtain ts tc rest where sc: "?sc = (ts, tc) # rest" using ne by (cases ?sc) auto
  obtain bs bc where l: "last ?sc = (bs, bc)" by (cases "last ?sc")
  have "(ts, tc) \<in> set ?sc" using sc by simp
  from bound[OF this] obtain tp where tp: "percentage (int tc) (int (length messages)) = Inr tp"
    by blast
  have "(bs, bc) \<in> set ?sc" using l ne last_in_set by metis
  from bound[OF this] obtain bp where bp: "percentage (int bc) (int (length messages)) = Inr bp"
    by blast
  have "sender_stats messages = Inr ((ts, tp), (bs, bp))"
    unfolding sender_stats_def Let_def sc[unfolded Let_def] 
    using tp bp l[unfolded sc] by simp
  then show ?thesis by blast
qed

lemma findall_runs_nonempty:
  "r \<in> set (findall_runs cls run s) \<Longrightarrow> r \<noteq> []"
  by (induction s arbitrary: run) (auto split: if_splits)

lemma emoji_tokens_nonempty: "e \<in> set (emoji_tokens messages) \<Longrightarrow> e \<noteq> []"
  by (auto simp: emoji_tokens_def extract_emojis_def dest: findall_runs_nonempty)

lemma word_tokens_nonempty: "w \<in> set (word_tokens P messages) \<Longrightarrow> w \<noteq> []"
  by (auto simp: word_tokens_def extract_words_def Let_def)

lemma most_common_1:
  "(most_common 1 (tally toks) = [] \<longleftrightarrow> toks = [])
   \<and> (\<forall>x xs. most_common 1 (tally toks) = x # xs \<longrightarrow> fst x \<in> set toks)"
proof -
  have t: "top_n_of toks 1 (most_common 1 (tally toks))" by (rule most_common_top_n)
  then have "length (most_common 1 (tally toks)) = min 1 (card (set toks))"
    by (simp add: top_n_of_def)
  then have a: "most_common 1 (tally toks) = [] \<longleftrightarrow> toks = []"
    by (cases "toks = []") (auto simp: min_def card_gt_0_iff Suc_le_eq)
  have b: "\<forall>x xs. most_common 1 (tally toks) = x # xs \<longrightarrow> fst x \<in> set toks"
    using t by (auto simp: top_n_of_def)
  show ?thesis using a b by blast
qed

lemma emoji_lines_top:
  "emoji_lines L (first_or_none (top_emojis messages 1))
     = (case top_emojis messages 1 of [] \<Rightarrow> [] | (e, c) # _ \<Rightarrow> [emoji_line L e c])"
proof (cases "top_emojis messages 1")
  case Nil
  then show ?thesis by (simp add: emoji_lines_def first_or_none_def)
next
  case (Cons x xs)
  then have "fst x \<in> set (emoji_tokens messages)"
    using most_common_1[of "emoji_tokens messages"] by (simp add: top_emojis_tally)
  then have "fst x \<noteq> []" by (rule emoji_tokens_nonempty)
  then show ?thesis using Cons
    by (cases x) (simp add: emoji_lines_def first_or_none_def)
qed

lemma word_lines_top:
  "word_lines L (first_or_none (top_words P messages 1))
     = (case top_words P messages 1 of [] \<Rightarrow> [] | (w, c) # _ \<Rightarrow> [word_line L w c])"
proof (cases "top_words P messages 1")
  case Nil
  then show ?thesis by (simp add: word_lines_def first_or_none_def)
next
  case (Cons x xs)
  then have "fst x \<in> set (word_tokens P messages)"
    using most_common_1[of "word_tokens P messages"] by (simp add: top_words_tally)
  then have "fst x \<noteq> []" by (rule word_tokens_nonempty)
  then show ?thesis using Cons
    by (cases x) (simp add: word_lines_def first_or_none_def)
qed

lemma last_join:
  "ls \<noteq> [] \<Longrightarrow> last ls \<noteq> [] \<Longrightarrow>
     join sep ls \<noteq> [] \<and> last (join sep ls) = last (last ls)"
proof (induction sep ls rule: join.induct)
  case (1 sep)
  then show ?case by simp
next
  case (2 sep x)
  then show ?case by simp
next
  case (3 sep x y ys)
  then have "join sep (y # ys) \<noteq> [] \<and> last (join sep (y # ys)) = last (last (y # ys))"
    by simp
  then show ?case by simp
qed

lemma peak_line_last: "peak_line L a b \<noteq> [] \<and> last (peak_line L a b) \<noteq> 10"
  by (simp add: peak_line_def lit_def)

lemma emoji_line_last: "emoji_line L a b \<noteq> [] \<and> last (emoji_line L a b) \<noteq> 10"
  by (simp add: emoji_line_def lit_def)

lemma word_line_last: "word_line L a b \<noteq> [] \<and> last (word_line L a b) \<noteq> 10"
  by (simp add: word_line_def lit_def)

lemma roast_level_cases:
  "roast_level P level \<in> {lit ''mild'', lit ''medium'', lit ''savage''}"
  by (simp add: roast_level_def Let_def)


lemma roast_lines_shape:
  assumes "messages \<noteq> []"
  shows "\<exists>ts tp bs bp h d.
      sender_stats messages = Inr ((ts, tp), (bs, bp))
      \<and> peak_hour messages = Inr h \<and> peak_weekday messages = Inr d
      \<and> roast_lines P messages L
          = Inr ([top_sender_line L ts tp, bottom_sender_line L bs bp,
                  peak_line L (format_hour h)
                    (case WEEKDAY_NAMES d of Some name \<Rightarrow> name | None \<Rightarrow> lit ''Unknown day'')]
                 @ (case top_emojis messages 1 of [] \<Rightarrow> [] | (e, c) # _ \<Rightarrow> [emoji_line L e c])
                 @ (case top_words P messages 1 of [] \<Rightarrow> [] | (w, c) # _ \<Rightarrow> [word_line L w c]))"
proof -
  obtain ts tp bs bp where st: "sender_stats messages = Inr ((ts, tp), (bs, bp))"
    using sender_stats_returns[OF assms] by blast
  obtain h where h: "peak_hour messages = Inr h" using peak_hour_returns[OF assms] by blast
  obtain d where d: "peak_weekday messages = Inr d" using peak_weekday_returns[OF assms] by blast
  have "roast_lines P messages L
          = Inr ([top_sender_line L ts tp, bottom_sender_line L bs bp,
                  peak_line L (format_hour h)
                    (case WEEKDAY_NAMES d of Some name \<Rightarrow> name | None \<Rightarrow> lit ''Unknown day'')]
                 @ (case top_emojis messages 1 of [] \<Rightarrow> [] | (e, c) # _ \<Rightarrow> [emoji_line L e c])
                 @ (case top_words P messages 1 of [] \<Rightarrow> [] | (w, c) # _ \<Rightarrow> [word_line L w c]))"
    by (simp add: roast_lines_def st h d Let_def emoji_lines_top word_lines_top)
  with st h d show ?thesis by blast
qed

lemma optional_lines_last:
  assumes "ls = [a, b, peak_line L x y]
      @ (case es of [] \<Rightarrow> [] | (e, c) # _ \<Rightarrow> [emoji_line L e c])
      @ (case ws of [] \<Rightarrow> [] | (w, c) # _ \<Rightarrow> [word_line L w c])"
  shows "last ls \<noteq> [] \<and> last (last ls) \<noteq> 10"
  using assms peak_line_last[of L x y] emoji_line_last[of L] word_line_last[of L]
  by (cases es; cases ws) (auto split: prod.splits)

text \<open>
  C6, amended. For every non-empty message sequence \<open>generate_roast\<close> returns the
  lines joined with single line breaks and without a trailing line break, where the
  lines are the top-sender line, the bottom-sender line and the peak-time line, each
  from the template of the level, then the emoji line exactly when an emoji exists,
  then the word line exactly when a word survives the stop-word filter: three to five
  lines, not always four.
\<close>

theorem roast_lines_composed:
  assumes "messages \<noteq> []"
  shows "\<exists>ts tp bs bp h d el wl text_out.
      sender_stats messages = Inr ((ts, tp), (bs, bp))
      \<and> peak_hour messages = Inr h \<and> peak_weekday messages = Inr d
      \<and> el = (case top_emojis messages 1 of [] \<Rightarrow> []
               | (e, c) # _ \<Rightarrow> [emoji_line (roast_level P level) e c])
      \<and> wl = (case top_words P messages 1 of [] \<Rightarrow> []
               | (w, c) # _ \<Rightarrow> [word_line (roast_level P level) w c])
      \<and> (el = [] \<longleftrightarrow> emoji_tokens messages = [])
      \<and> (wl = [] \<longleftrightarrow> word_tokens P messages = [])
      \<and> text_out = join [10]
           ([top_sender_line (roast_level P level) ts tp,
             bottom_sender_line (roast_level P level) bs bp,
             peak_line (roast_level P level) (format_hour h)
               (case WEEKDAY_NAMES d of Some name \<Rightarrow> name | None \<Rightarrow> lit ''Unknown day'')]
            @ el @ wl)
      \<and> generate_roast P messages level = Inr text_out
      \<and> text_out \<noteq> [] \<and> last text_out \<noteq> 10
      \<and> roast_level P level \<in> {lit ''mild'', lit ''medium'', lit ''savage''}"
proof -
  define L where "L = roast_level P level"
  obtain ts tp bs bp h d where st: "sender_stats messages = Inr ((ts, tp), (bs, bp))"
    and h: "peak_hour messages = Inr h" and d: "peak_weekday messages = Inr d"
    and rl: "roast_lines P messages L
          = Inr ([top_sender_line L ts tp, bottom_sender_line L bs bp,
                  peak_line L (format_hour h)
                    (case WEEKDAY_NAMES d of Some name \<Rightarrow> name | None \<Rightarrow> lit ''Unknown day'')]
                 @ (case top_emojis messages 1 of [] \<Rightarrow> [] | (e, c) # _ \<Rightarrow> [emoji_line L e c])
                 @ (case top_words P messages 1 of [] \<Rightarrow> [] | (w, c) # _ \<Rightarrow> [word_line L w c]))"
    using roast_lines_shape[OF assms, of P L] by blast
  define el where "el = (case top_emojis messages 1 of [] \<Rightarrow> [] | (e, c) # _ \<Rightarrow> [emoji_line L e c])"
  define wl where "wl = (case top_words P messages 1 of [] \<Rightarrow> [] | (w, c) # _ \<Rightarrow> [word_line L w c])"
  define ls where "ls = [top_sender_line L ts tp, bottom_sender_line L bs bp,
                  peak_line L (format_hour h)
                    (case WEEKDAY_NAMES d of Some name \<Rightarrow> name | None \<Rightarrow> lit ''Unknown day'')]
                 @ el @ wl"
  have e0: "el = [] \<longleftrightarrow> emoji_tokens messages = []"
    using most_common_1[of "emoji_tokens messages"]
    by (auto simp: el_def top_emojis_tally split: list.splits)
  have w0: "wl = [] \<longleftrightarrow> word_tokens P messages = []"
    using most_common_1[of "word_tokens P messages"]
    by (auto simp: wl_def top_words_tally split: list.splits)
  have rl': "roast_lines P messages L = Inr ls" using rl by (simp add: ls_def el_def wl_def)
  have g: "generate_roast P messages level = Inr (join [10] ls)"
    using assms by (simp add: generate_roast_def L_def[symmetric] rl' Let_def)
  have lastl: "last ls \<noteq> [] \<and> last (last ls) \<noteq> 10"
    by (rule optional_lines_last[of ls _ _ L _ _ "top_emojis messages 1" "top_words P messages 1"])
      (simp add: ls_def el_def wl_def)
  have ne: "ls \<noteq> []" by (simp add: ls_def)
  have j: "join [10] ls \<noteq> [] \<and> last (join [10] ls) \<noteq> 10"
    using last_join[OF ne, of "[10]"] lastl by simp
  have body: "sender_stats messages = Inr ((ts, tp), (bs, bp))
      \<and> peak_hour messages = Inr h \<and> peak_weekday messages = Inr d
      \<and> el = el \<and> wl = wl
      \<and> (el = [] \<longleftrightarrow> emoji_tokens messages = [])
      \<and> (wl = [] \<longleftrightarrow> word_tokens P messages = [])
      \<and> join [10] ls = join [10]
           ([top_sender_line L ts tp, bottom_sender_line L bs bp,
             peak_line L (format_hour h)
               (case WEEKDAY_NAMES d of Some name \<Rightarrow> name | None \<Rightarrow> lit ''Unknown day'')]
            @ el @ wl)
      \<and> generate_roast P messages level = Inr (join [10] ls)
      \<and> join [10] ls \<noteq> [] \<and> last (join [10] ls) \<noteq> 10
      \<and> L \<in> {lit ''mild'', lit ''medium'', lit ''savage''}"
    using st h d e0 w0 g j roast_level_cases[of P level]
    unfolding L_def[symmetric] by (simp only: ls_def simp_thms)
  show ?thesis
    unfolding L_def[symmetric] el_def[symmetric] wl_def[symmetric]
    by (rule exI[of _ ts], rule exI[of _ tp], rule exI[of _ bs], rule exI[of _ bp],
        rule exI[of _ h], rule exI[of _ d], rule exI[of _ el], rule exI[of _ wl],
        rule exI[of _ "join [10] ls"], rule body)
qed


lemma percentage_half: "percentage 1 2 = Inr 50"
proof -
  have a: "nearest_binary64 (1 / 2) = 1 / 2" by code_simp
  have b: "nearest_binary64 50 = 50" by code_simp
  have c: "round_half_even 50 = 50" by code_simp
  have "true_div 1 2 = Inr (1 / 2)"
    using round_double_small[of "1 / 2"] by (simp add: true_div_def a)
  moreover have "float_mul (1 / 2) 100 = Fin 50"
    using round_double_small[of 50] by (simp add: float_mul_def b)
  ultimately show ?thesis by (simp add: percentage_def py_round_def c)
qed

lemma example_sender_stats:
  "sender_stats example_chat = Inr ((lit ''Alice'', 50), (lit ''Bob'', 50))"
proof -
  have "message_counts example_chat = [(lit ''Alice'', 1), (lit ''Bob'', 1)]"
    by (simp add: message_counts_def example_chat_def msg_alice_def msg_bob_def lit_def)
  then show ?thesis
    by (simp add: sender_stats_def sorted_reverse_def example_chat_def percentage_half)
qed

lemma example_roast_lines:
  "roast_lines ascii_platform example_chat (lit ''medium'')
     = Inr [lit ''Alice dominated the chat with 50% of the messages. Maybe let someone else get a word in?'',
            lit ''Bob clocked in at just 50% of messages. Do you even know this chat exists?'',
            lit ''Peak chat time is 9PM on Tuesday. Who needs sleep when you have memes?'',
            lit ''Top emoji award goes to '' @ [0x1F600, 0x1F600, 32, 0x2013, 32]
              @ lit ''dropped 1 times. Maybe diversify your feelings?'',
            lit ''You say '' @ [0x27] @ lit ''hello'' @ [0x27]
              @ lit '' 2 times. Is that a cry for help or just laziness?'']"
proof -
  have e: "top_emojis example_chat 1 = [([0x1F600, 0x1F600], 1)]"
    by (simp add: example_top_emojis)
  have w: "top_words ascii_platform example_chat 1 = [(lit ''hello'', 2)]"
    by (simp add: example_top_words)
  have n: "str_int 50 = lit ''50'' \<and> str_nat 1 = lit ''1'' \<and> str_nat 2 = lit ''2''
      \<and> format_hour 21 = lit ''9PM''"
    by (simp add: str_int_def str_nat.simps format_hour_def lit_def)
  have m: "lit ''mild'' \<noteq> lit ''medium''" by (simp add: lit_def)
  have h: "lit ''hello'' \<noteq> []" by (simp add: lit_def)
  show ?thesis
    unfolding roast_lines_def example_sender_stats example_peak_hour example_peak_weekday e w
    by (simp add: Let_def first_or_none_def emoji_lines_def word_lines_def top_sender_line_def
        bottom_sender_line_def peak_line_def emoji_line_def word_line_def WEEKDAY_NAMES_def
        n h)
      (simp add: lit_def str_nat.simps)
qed


lemma example_silent_lines:
  "roast_lines ascii_platform [msg_silent] (lit ''medium'')
     = Inr [lit ''X dominated the chat with 100% of the messages. Maybe let someone else get a word in?'',
            lit ''X clocked in at just 100% of messages. Do you even know this chat exists?'',
            lit ''Peak chat time is 1PM on Monday. Who needs sleep when you have memes?'']"
proof -
  have s: "sender_stats [msg_silent] = Inr ((lit ''X'', 100), (lit ''X'', 100))"
    by (rule sender_stats_single) (simp_all add: msg_silent_def)
  have ph: "peak_hour [msg_silent] = Inr 13"
    by (simp add: peak_hour_def messages_by_hour_def max_by_def msg_silent_def)
  have pw: "peak_weekday [msg_silent] = Inr 0"
    by (simp add: peak_weekday_def messages_by_weekday_def max_by_def msg_silent_def
        weekday_def toordinal_def days_before_year_def days_before_month_def is_leap_def)
  have e: "top_emojis [msg_silent] 1 = []"
    by (simp add: top_emojis_def most_common_def sorted_reverse_def extract_emojis_def
        msg_silent_def)
  have w: "top_words ascii_platform [msg_silent] 1 = []"
    by (simp add: top_words_def most_common_def sorted_reverse_def extract_words_def
        msg_silent_def ascii_platform_def)
  have n: "format_hour 13 = lit ''1PM''"
    by (simp add: str_nat.simps format_hour_def lit_def)
  show ?thesis
    unfolding roast_lines_def s ph pw e w
    by (simp add: Let_def first_or_none_def emoji_lines_def word_lines_def top_sender_line_def
        bottom_sender_line_def peak_line_def WEEKDAY_NAMES_def n str_int_100)
      (simp add: lit_def)
qed

text \<open>
  C6, as stated, fails: the example chat, which has an emoji and a word, gives five
  lines, and a chat of one message with an empty text gives three.
\<close>

theorem roast_four_lines_counterexample:
  "generate_roast ascii_platform example_chat (lit ''medium'')
     = Inr (join [10]
         [lit ''Alice dominated the chat with 50% of the messages. Maybe let someone else get a word in?'',
          lit ''Bob clocked in at just 50% of messages. Do you even know this chat exists?'',
          lit ''Peak chat time is 9PM on Tuesday. Who needs sleep when you have memes?'',
          lit ''Top emoji award goes to '' @ [0x1F600, 0x1F600, 32, 0x2013, 32]
            @ lit ''dropped 1 times. Maybe diversify your feelings?'',
          lit ''You say '' @ [0x27] @ lit ''hello'' @ [0x27]
            @ lit '' 2 times. Is that a cry for help or just laziness?''])
   \<and> generate_roast ascii_platform [msg_silent] (lit ''medium'')
     = Inr (join [10]
         [lit ''X dominated the chat with 100% of the messages. Maybe let someone else get a word in?'',
          lit ''X clocked in at just 100% of messages. Do you even know this chat exists?'',
          lit ''Peak chat time is 1PM on Monday. Who needs sleep when you have memes?''])"
proof -
  have "example_chat \<noteq> []" by (simp add: example_chat_def)
  then show ?thesis
    by (simp add: generate_roast_def roast_level_medium example_roast_lines example_silent_lines
        Let_def del: join.simps)
qed

theorem roast_lines_composed_witness:
  "example_chat \<noteq> []
   \<and> (\<exists>text_out. generate_roast ascii_platform example_chat (lit ''medium'') = Inr text_out
         \<and> text_out \<noteq> [] \<and> last text_out \<noteq> 10)
   \<and> sender_stats example_chat = Inr ((lit ''Alice'', 50), (lit ''Bob'', 50))
   \<and> peak_hour example_chat = Inr 21 \<and> peak_weekday example_chat = Inr 1
   \<and> emoji_tokens example_chat \<noteq> [] \<and> word_tokens ascii_platform example_chat \<noteq> []"
proof -
  have ne: "example_chat \<noteq> []" by (simp add: example_chat_def)
  from roast_lines_composed[OF ne, of ascii_platform "lit ''medium''"]
  have "\<exists>text_out. generate_roast ascii_platform example_chat (lit ''medium'') = Inr text_out
         \<and> text_out \<noteq> [] \<and> last text_out \<noteq> 10"
    by blast
  then show ?thesis
    using ne by (simp add: example_sender_stats example_peak_hour example_peak_weekday
        example_emoji_tokens example_word_tokens)
qed

section \<open>Properties of the parser loop\<close>

lemma strptime_error: "strptime P s r = Inl e \<Longrightarrow> e = ValueError"
  by (auto simp: strptime_def make_datetime_def Let_def split: option.splits if_splits prod.splits)

lemma parse_timestamp_error: "parse_timestamp P d t a = Inl e \<Longrightarrow> e = ValueError"
  by (auto simp: parse_timestamp_def Let_def split: list.splits option.splits if_splits
      dest: strptime_error)

lemma header_message_error: "header_message P l = Some (Inl e) \<Longrightarrow> e = ValueError"
  by (auto simp: header_message_def split: option.splits sum.splits prod.splits
      dest: parse_timestamp_error)

lemma parse_loop_step:
  "parse_loop P (raw_line # rest) ms cur =
     (let line = strip_with (\<lambda>c. c = 10) raw_line
      in if line = [] then parse_loop P rest ms cur
         else
           (case header_message P line of
              Some (Inl e) \<Rightarrow> Inl e
            | Some (Inr m0) \<Rightarrow> parse_loop P rest (out ms cur) (Some m0)
            | None \<Rightarrow>
               (case cur of
                  Some c \<Rightarrow> parse_loop P rest ms (Some (c\<lparr> msg_text := msg_text c @ [10] @ line \<rparr>))
                | None \<Rightarrow> parse_loop P rest ms None)))"
  by (auto simp: Let_def is_header_def header_message_def out_def
      split: option.splits sum.splits prod.splits)

declare parse_loop.simps(2) [simp del]

lemma extends_refl: "extends c c"
  by (simp add: extends_def)

lemma extends_trans: "extends c'' c' \<Longrightarrow> extends c' c \<Longrightarrow> extends c'' c"
  unfolding extends_def by auto

lemma clean_Cons:
  "clean (raw # rest) = (if strip_with (\<lambda>c. c = 10) raw = [] then clean rest
                         else strip_with (\<lambda>c. c = 10) raw # clean rest)"
  by (simp add: clean_def)

lemma is_header_message: "is_header P l \<longleftrightarrow> header_message P l \<noteq> None"
  by (simp add: is_header_def header_message_def split: option.splits)

lemma parse_loop_error:
  "parse_loop P ls ms cur = Inl ValueError
     \<longleftrightarrow> (\<exists>l\<in>set (clean ls). header_message P l = Some (Inl ValueError))"
proof (induction ls arbitrary: ms cur)
  case Nil
  show ?case by (simp add: clean_def)
next
  case (Cons raw rest)
  let ?line = "strip_with (\<lambda>c. c = 10) raw"
  show ?case
  proof (cases "?line = []")
    case True
    then show ?thesis using Cons.IH[of ms cur] by (simp add: parse_loop_step clean_Cons)
  next
    case False
    note ne = this
    show ?thesis
    proof (cases "header_message P ?line")
      case None
      show ?thesis
      proof (cases cur)
        case None
        then show ?thesis using ne \<open>header_message P ?line = None\<close> Cons.IH[of ms None]
          by (simp add: parse_loop_step clean_Cons)
      next
        case (Some c)
        then show ?thesis
          using ne \<open>header_message P ?line = None\<close>
            Cons.IH[of ms "Some (c\<lparr> msg_text := msg_text c @ [10] @ ?line \<rparr>)"]
          by (simp add: parse_loop_step clean_Cons)
      qed
    next
      case (Some r)
      show ?thesis
      proof (cases r)
        case (Inl e)
        then have "e = ValueError" using Some header_message_error by blast
        then show ?thesis using ne Some Inl by (simp add: parse_loop_step clean_Cons)
      next
        case (Inr m0)
        then show ?thesis using ne Some Cons.IH[of "out ms cur" "Some m0"]
          by (simp add: parse_loop_step clean_Cons)
      qed
    qed
  qed
qed

lemma parse_loop_only_value_error: "parse_loop P ls ms cur = Inl e \<Longrightarrow> e = ValueError"
proof (induction ls arbitrary: ms cur)
  case Nil
  then show ?case by simp
next
  case (Cons raw rest)
  then show ?case
    by (auto simp: parse_loop_step Let_def split: if_splits sum.splits option.splits
        dest: header_message_error)
qed

lemma parse_loop_result:
  "parse_loop P ls ms cur = Inr (ms', cur') \<Longrightarrow>
   \<exists>old new. out ms' cur' = ms @ old @ new
     \<and> list_all2 extends old (out [] cur)
     \<and> list_all2 (started_by P) new (filter (is_header P) (clean ls))"
proof (induction ls arbitrary: ms cur)
  case Nil
  then have "out ms' cur' = ms @ out [] cur @ []" by (simp add: out_def)
  moreover have "list_all2 extends (out [] cur) (out [] cur)"
    by (simp add: list.rel_refl extends_refl)
  moreover have "list_all2 (started_by P) [] (filter (is_header P) (clean []))"
    by (simp add: clean_def)
  ultimately show ?case by blast
next
  case (Cons raw rest)
  let ?line = "strip_with (\<lambda>c. c = 10) raw"
  show ?case
  proof (cases "?line = []")
    case True
    then have "parse_loop P rest ms cur = Inr (ms', cur')"
      using Cons.prems by (simp add: parse_loop_step)
    from Cons.IH[OF this] show ?thesis using True by (simp add: clean_Cons)
  next
    case False
    note ne = this
    show ?thesis
    proof (cases "header_message P ?line")
      case (Some r)
      then have hd: "is_header P ?line" by (simp add: is_header_message)
      obtain m0 where m0: "header_message P ?line = Some (Inr m0)"
        and pl: "parse_loop P rest (out ms cur) (Some m0) = Inr (ms', cur')"
        using Cons.prems ne Some by (cases r) (auto simp: parse_loop_step)
      from Cons.IH[OF pl] obtain old new where
        o: "out ms' cur' = out ms cur @ old @ new"
        and e: "list_all2 extends old (out [] (Some m0))"
        and s: "list_all2 (started_by P) new (filter (is_header P) (clean rest))" by blast
      from e obtain m0' where old: "old = [m0']" and ext: "extends m0' m0"
        by (auto simp: out_def list_all2_Cons2)
      have st: "started_by P m0' ?line" using ext m0 by (simp add: started_by_def)
      have "out ms' cur' = ms @ out [] cur @ (m0' # new)" using o old by (simp add: out_def)
      moreover have "list_all2 extends (out [] cur) (out [] cur)"
        by (simp add: list.rel_refl extends_refl)
      moreover have "list_all2 (started_by P) (m0' # new) (filter (is_header P) (clean (raw # rest)))"
        using st s ne hd by (simp add: clean_Cons)
      ultimately show ?thesis by blast
    next
      case None
      then have nh: "\<not> is_header P ?line" by (simp add: is_header_message)
      show ?thesis
      proof (cases cur)
        case None
        then have "parse_loop P rest ms None = Inr (ms', cur')"
          using Cons.prems ne \<open>header_message P ?line = None\<close> by (simp add: parse_loop_step)
        from Cons.IH[OF this] show ?thesis using None ne nh by (simp add: clean_Cons)
      next
        case (Some c)
        let ?c = "c\<lparr> msg_text := msg_text c @ [10] @ ?line \<rparr>"
        have "parse_loop P rest ms (Some ?c) = Inr (ms', cur')"
          using Cons.prems ne \<open>header_message P ?line = None\<close> Some by (simp add: parse_loop_step)
        from Cons.IH[OF this] obtain old new where
          o: "out ms' cur' = ms @ old @ new"
          and e: "list_all2 extends old (out [] (Some ?c))"
          and s: "list_all2 (started_by P) new (filter (is_header P) (clean rest))" by blast
        from e obtain c' where old: "old = [c']" and ext: "extends c' ?c"
          by (auto simp: out_def list_all2_Cons2)
        have "extends ?c c" by (simp add: extends_def)
        with ext have "extends c' c" by (rule extends_trans)
        then have "list_all2 extends old (out [] cur)" using old Some by (simp add: out_def)
        then show ?thesis using o s ne nh by (auto simp: clean_Cons)
      qed
    qed
  qed
qed

lemma parse_chat_out:
  "parse_chat P content =
     (case parse_loop P (file_lines [] content) [] None of
        Inl e \<Rightarrow> Inl e | Inr (ms, cur) \<Rightarrow> Inr (out ms cur))"
  by (simp add: parse_chat_def out_def split: sum.splits option.splits prod.splits)

lemma parse_chat_headers:
  assumes "parse_chat P content = Inr msgs"
  shows "list_all2 (started_by P) msgs (filter (is_header P) (content_lines content))"
proof -
  obtain ms cur where pl: "parse_loop P (file_lines [] content) [] None = Inr (ms, cur)"
    and m: "msgs = out ms cur"
    using assms by (auto simp: parse_chat_out split: sum.splits)
  from parse_loop_result[OF pl] show ?thesis
    unfolding m by (auto simp: out_def content_lines_def clean_def)
qed

lemma parse_chat_fails_iff:
  "parse_chat P content = Inl ValueError
     \<longleftrightarrow> (\<exists>l\<in>set (content_lines content). header_message P l = Some (Inl ValueError))"
  using parse_loop_error[of P "file_lines [] content" "[]" None]
  by (auto simp: parse_chat_out content_lines_def clean_def split: sum.splits)

lemma parse_chat_total:
  "parse_chat P content = Inl ValueError \<or> (\<exists>msgs. parse_chat P content = Inr msgs)"
  by (auto simp: parse_chat_out split: sum.splits dest: parse_loop_only_value_error)

lemma try_down_numeral:
  "try_down f lo (numeral n) =
     (if numeral n < lo then None
      else case f (numeral n) of Some r \<Rightarrow> Some r | None \<Rightarrow> try_down f lo (pred_numeral n))"
  by (simp add: numeral_eq_Suc)

lemmas rx_eval = re_match_def MESSAGE_RE_def chr_def rng_def is_digit_def is_space_def
  ascii_platform_def try_down_numeral Let_def

lemmas strptime_eval = parse_timestamp_def strptime_def format_12_def format_24_def
  dir_m_def dir_d_def dir_Y_def dir_I_def dir_H_def dir_M_def dir_p_def
  group_int_def int_of_digits_def digit_value_def make_datetime_def valid_datetime_def
  days_in_month_def is_leap_def hour_12_def ascii_lower_def

lemma header_blank_sender:
  "header_message ascii_platform (lit ''1/1/24, 9:15 PM - : hi'')
     = Some (Inr \<lparr> timestamp = \<lparr> year = 2024, month = 1, day = 1, hour = 21, minute = 15 \<rparr>,
                    sender = [], msg_text = lit ''hi'' \<rparr>)"
  by (simp add: header_message_def rx_eval strptime_eval strip_with_def lit_def)

lemma header_alice:
  "header_message ascii_platform (lit ''12/30/24, 9:15 PM - Alice: Hey!'')
     = Some (Inr \<lparr> timestamp = \<lparr> year = 2024, month = 12, day = 30, hour = 21, minute = 15 \<rparr>,
                    sender = lit ''Alice'', msg_text = lit ''Hey!'' \<rparr>)"
  by (simp add: header_message_def rx_eval strptime_eval strip_with_def lit_def)

lemma header_bob:
  "header_message ascii_platform (lit ''12/31/24, 10:00 AM - Bob: Hello'')
     = Some (Inr \<lparr> timestamp = \<lparr> year = 2024, month = 12, day = 31, hour = 10, minute = 0 \<rparr>,
                    sender = lit ''Bob'', msg_text = lit ''Hello'' \<rparr>)"
  by (simp add: header_message_def rx_eval strptime_eval strip_with_def lit_def)

lemma header_month_13:
  "header_message ascii_platform (lit ''13/1/24, 9:15 PM - A: hi'') = Some (Inl ValueError)"
  by (simp add: header_message_def rx_eval strptime_eval strip_with_def lit_def)

lemma header_junk:
  "header_message ascii_platform (lit ''and more'') = None"
  by (simp add: header_message_def rx_eval lit_def)

lemma scenario_a_lines:
  "content_lines scenario_a
     = [lit ''12/30/24, 9:15 PM - Alice: Hey!'', lit ''12/31/24, 10:00 AM - Bob: Hello'']"
  by (simp add: content_lines_def scenario_a_def strip_with_def lit_def)

lemma strip_line_break:
  assumes "10 \<notin> set l"
  shows "strip_with (\<lambda>c. c = 10) (l @ [10]) = l"
proof (cases "l = []")
  case True
  then show ?thesis by (simp add: strip_with_def)
next
  case False
  have 1: "dropWhile (\<lambda>c. c = 10) (l @ [10]) = l @ [10]" using assms False by (cases l) auto
  have 2: "dropWhile (\<lambda>c. c = 10) (rev l) = rev l"
    using assms by (cases l rule: rev_cases) auto
  show ?thesis by (simp add: strip_with_def 1 2)
qed

lemma file_lines_scenario_a:
  "file_lines [] scenario_a
     = [lit ''12/30/24, 9:15 PM - Alice: Hey!'' @ [10], lit ''12/31/24, 10:00 AM - Bob: Hello'' @ [10]]"
  by (simp add: scenario_a_def lit_def)

lemma parse_scenario_a:
  "parse_chat ascii_platform scenario_a
     = Inr [\<lparr> timestamp = \<lparr> year = 2024, month = 12, day = 30, hour = 21, minute = 15 \<rparr>,
               sender = lit ''Alice'', msg_text = lit ''Hey!'' \<rparr>,
            \<lparr> timestamp = \<lparr> year = 2024, month = 12, day = 31, hour = 10, minute = 0 \<rparr>,
               sender = lit ''Bob'', msg_text = lit ''Hello'' \<rparr>]"
proof -
  have a: "strip_with (\<lambda>c. c = 10) (lit ''12/30/24, 9:15 PM - Alice: Hey!'' @ [10])
      = lit ''12/30/24, 9:15 PM - Alice: Hey!''"
    by (rule strip_line_break) (simp add: lit_def)
  have b: "strip_with (\<lambda>c. c = 10) (lit ''12/31/24, 10:00 AM - Bob: Hello'' @ [10])
      = lit ''12/31/24, 10:00 AM - Bob: Hello''"
    by (rule strip_line_break) (simp add: lit_def)
  have na: "lit ''12/30/24, 9:15 PM - Alice: Hey!'' \<noteq> []" by (simp add: lit_def)
  have nb: "lit ''12/31/24, 10:00 AM - Bob: Hello'' \<noteq> []" by (simp add: lit_def)
  show ?thesis
    unfolding parse_chat_out file_lines_scenario_a
    by (simp add: parse_loop_step a b na nb header_alice header_bob out_def)
qed

lemma parse_blank_sender:
  "parse_chat ascii_platform (lit ''1/1/24, 9:15 PM - : hi'')
     = Inr [\<lparr> timestamp = \<lparr> year = 2024, month = 1, day = 1, hour = 21, minute = 15 \<rparr>,
               sender = [], msg_text = lit ''hi'' \<rparr>]"
proof -
  have f: "file_lines [] (lit ''1/1/24, 9:15 PM - : hi'') = [lit ''1/1/24, 9:15 PM - : hi'']"
    by (simp add: lit_def)
  have a: "strip_with (\<lambda>c. c = 10) (lit ''1/1/24, 9:15 PM - : hi'') = lit ''1/1/24, 9:15 PM - : hi''"
    by (simp add: strip_with_def lit_def)
  have na: "lit ''1/1/24, 9:15 PM - : hi'' \<noteq> []" by (simp add: lit_def)
  show ?thesis
    unfolding parse_chat_out f
    by (simp add: parse_loop_step a na header_blank_sender out_def)
qed

lemma header_notice:
  "header_message ascii_platform (lit ''Messages are end-to-end encrypted.'') = None"
  by (simp add: header_message_def rx_eval lit_def)

lemma example_export_lines:
  "content_lines example_export
     = [lit ''Messages are end-to-end encrypted.'', lit ''12/30/24, 9:15 PM - Alice: Hey!'',
        lit ''and more'', lit ''12/31/24, 10:00 AM - Bob: Hello'']"
  by (simp add: content_lines_def example_export_def strip_with_def lit_def)

lemma broken_export_lines:
  "content_lines broken_export
     = [lit ''12/30/24, 9:15 PM - Alice: Hey!'', lit ''13/1/24, 9:15 PM - A: hi'']"
  by (simp add: content_lines_def broken_export_def strip_with_def lit_def)

lemma parse_loop_line:
  assumes "10 \<notin> set l"
  shows "parse_loop P ((l @ [10]) # rest) ms cur =
     (if l = [] then parse_loop P rest ms cur
      else case header_message P l of
             Some (Inl e) \<Rightarrow> Inl e
           | Some (Inr m0) \<Rightarrow> parse_loop P rest (out ms cur) (Some m0)
           | None \<Rightarrow>
               (case cur of
                  Some c \<Rightarrow> parse_loop P rest ms (Some (c\<lparr> msg_text := msg_text c @ [10] @ l \<rparr>))
                | None \<Rightarrow> parse_loop P rest ms None))"
  by (simp add: parse_loop_step strip_line_break[OF assms] Let_def)

lemma parse_example_export:
  "parse_chat ascii_platform example_export
     = Inr [\<lparr> timestamp = \<lparr> year = 2024, month = 12, day = 30, hour = 21, minute = 15 \<rparr>,
               sender = lit ''Alice'', msg_text = lit ''Hey!'' @ [10] @ lit ''and more'' \<rparr>,
            \<lparr> timestamp = \<lparr> year = 2024, month = 12, day = 31, hour = 10, minute = 0 \<rparr>,
               sender = lit ''Bob'', msg_text = lit ''Hello'' \<rparr>]"
proof -
  have f: "file_lines [] example_export
      = [lit ''Messages are end-to-end encrypted.'' @ [10],
         lit ''12/30/24, 9:15 PM - Alice: Hey!'' @ [10], lit ''and more'' @ [10], [] @ [10],
         lit ''12/31/24, 10:00 AM - Bob: Hello'' @ [10]]"
    by (simp add: example_export_def lit_def)
  have n: "10 \<notin> set (lit ''Messages are end-to-end encrypted.'')"
    "10 \<notin> set (lit ''12/30/24, 9:15 PM - Alice: Hey!'')" "10 \<notin> set (lit ''and more'')"
    "10 \<notin> set (lit ''12/31/24, 10:00 AM - Bob: Hello'')" "10 \<notin> set ([] :: ustr)"
    by (simp_all add: lit_def)
  have e: "lit ''Messages are end-to-end encrypted.'' \<noteq> []"
    "lit ''12/30/24, 9:15 PM - Alice: Hey!'' \<noteq> []" "lit ''and more'' \<noteq> []"
    "lit ''12/31/24, 10:00 AM - Bob: Hello'' \<noteq> []"
    by (simp_all add: lit_def)
  show ?thesis
    unfolding parse_chat_out f
    by (simp add: parse_loop_line[OF n(1)] parse_loop_line[OF n(2)] parse_loop_line[OF n(3)]
        parse_loop_line[OF n(4)] parse_loop_line[OF n(5)] e header_notice header_alice
        header_junk header_bob out_def del: append_Nil)
qed

lemma parse_broken_export: "parse_chat ascii_platform broken_export = Inl ValueError"
  using parse_chat_fails_iff[of ascii_platform broken_export]
  by (simp add: broken_export_lines header_month_13)

section \<open>Claims on the parser\<close>

text \<open>
  C5. For every export that parses, the number of message records returned equals the
  number of input lines that match the header pattern, and the records are in the order
  of those lines: the i-th record has the timestamp and the sender of the i-th header
  line, and its text starts with the text of that line.
\<close>

theorem parse_chat_counts_headers:
  assumes "parse_chat P content = Inr msgs"
  shows "length msgs = length (filter (is_header P) (content_lines content))
    \<and> list_all2 (started_by P) msgs (filter (is_header P) (content_lines content))"
  using parse_chat_headers[OF assms] by (simp add: list_all2_lengthD)

theorem parse_chat_counts_headers_witness:
  "parse_chat ascii_platform example_export
     = Inr [\<lparr> timestamp = \<lparr> year = 2024, month = 12, day = 30, hour = 21, minute = 15 \<rparr>,
               sender = lit ''Alice'', msg_text = lit ''Hey!'' @ [10] @ lit ''and more'' \<rparr>,
            \<lparr> timestamp = \<lparr> year = 2024, month = 12, day = 31, hour = 10, minute = 0 \<rparr>,
               sender = lit ''Bob'', msg_text = lit ''Hello'' \<rparr>]
   \<and> length (content_lines example_export) = 4
   \<and> filter (is_header ascii_platform) (content_lines example_export)
       = [lit ''12/30/24, 9:15 PM - Alice: Hey!'', lit ''12/31/24, 10:00 AM - Bob: Hello'']
   \<and> started_by ascii_platform
         \<lparr> timestamp = \<lparr> year = 2024, month = 12, day = 30, hour = 21, minute = 15 \<rparr>,
            sender = lit ''Alice'', msg_text = lit ''Hey!'' @ [10] @ lit ''and more'' \<rparr>
         (lit ''12/30/24, 9:15 PM - Alice: Hey!'')
   \<and> started_by ascii_platform
         \<lparr> timestamp = \<lparr> year = 2024, month = 12, day = 31, hour = 10, minute = 0 \<rparr>,
            sender = lit ''Bob'', msg_text = lit ''Hello'' \<rparr>
         (lit ''12/31/24, 10:00 AM - Bob: Hello'')"
proof -
  have h: "filter (is_header ascii_platform) (content_lines example_export)
       = [lit ''12/30/24, 9:15 PM - Alice: Hey!'', lit ''12/31/24, 10:00 AM - Bob: Hello'']"
    by (simp add: example_export_lines is_header_message header_notice header_alice header_junk
        header_bob)
  note t = parse_chat_counts_headers[OF parse_example_export, unfolded h]
  from t have s: "started_by ascii_platform
         \<lparr> timestamp = \<lparr> year = 2024, month = 12, day = 30, hour = 21, minute = 15 \<rparr>,
            sender = lit ''Alice'', msg_text = lit ''Hey!'' @ [10] @ lit ''and more'' \<rparr>
         (lit ''12/30/24, 9:15 PM - Alice: Hey!'')
    \<and> started_by ascii_platform
         \<lparr> timestamp = \<lparr> year = 2024, month = 12, day = 31, hour = 10, minute = 0 \<rparr>,
            sender = lit ''Bob'', msg_text = lit ''Hello'' \<rparr>
         (lit ''12/31/24, 10:00 AM - Bob: Hello'')"
    by simp
  have l: "length (content_lines example_export) = 4" by (simp add: example_export_lines)
  show ?thesis using s l h parse_example_export by blast
qed

text \<open>
  C8. \<open>parse_chat\<close> fails, with \<open>ValueError\<close> and without a partial result, exactly
  when some line matches the header pattern and its date and time do not parse; lines
  that do not match the header pattern never make it fail, and an input without any
  header line gives the empty list.
\<close>

theorem parse_chat_fatal_error:
  "(parse_chat P content = Inl ValueError
      \<longleftrightarrow> (\<exists>l\<in>set (content_lines content). header_message P l = Some (Inl ValueError)))
   \<and> (parse_chat P content = Inl ValueError \<or> (\<exists>msgs. parse_chat P content = Inr msgs))
   \<and> ((\<forall>l\<in>set (content_lines content). \<not> is_header P l) \<longrightarrow> parse_chat P content = Inr [])"
proof -
  have 3: "(\<forall>l\<in>set (content_lines content). \<not> is_header P l) \<longrightarrow> parse_chat P content = Inr []"
  proof
    assume a: "\<forall>l\<in>set (content_lines content). \<not> is_header P l"
    then have "\<not> (\<exists>l\<in>set (content_lines content). header_message P l = Some (Inl ValueError))"
      by (auto simp: is_header_message)
    then have "parse_chat P content \<noteq> Inl ValueError" by (simp add: parse_chat_fails_iff)
    then obtain msgs where m: "parse_chat P content = Inr msgs" using parse_chat_total by blast
    have "filter (is_header P) (content_lines content) = []" using a by (simp add: filter_empty_conv)
    with parse_chat_headers[OF m] have "msgs = []" by simp
    with m show "parse_chat P content = Inr []" by simp
  qed
  show ?thesis using parse_chat_fails_iff[of P content] parse_chat_total[of P content] 3 by blast
qed

theorem parse_chat_fatal_error_witness:
  "header_message ascii_platform (lit ''13/1/24, 9:15 PM - A: hi'') = Some (Inl ValueError)
   \<and> lit ''13/1/24, 9:15 PM - A: hi'' \<in> set (content_lines broken_export)
   \<and> parse_chat ascii_platform broken_export = Inl ValueError
   \<and> content_lines (lit ''and more'') = [lit ''and more'']
   \<and> \<not> is_header ascii_platform (lit ''and more'')
   \<and> parse_chat ascii_platform (lit ''and more'') = Inr []"
proof -
  have c: "content_lines (lit ''and more'') = [lit ''and more'']"
    by (simp add: content_lines_def strip_with_def lit_def)
  have n: "\<not> is_header ascii_platform (lit ''and more'')"
    by (simp add: is_header_message header_junk)
  show ?thesis
    using parse_chat_fatal_error[of ascii_platform broken_export]
      parse_chat_fatal_error[of ascii_platform "lit ''and more''"]
    by (simp add: c n broken_export_lines header_month_13)
qed

text \<open>
  C4, as stated, fails: in the line \<^verbatim>\<open>1/1/24, 9:15 PM - : hi\<close> the pattern
  \<^verbatim>\<open>[^:]+\<close> matches the single blank before the colon, and the record has the
  empty sender.
\<close>

theorem blank_sender_counterexample:
  "parse_chat ascii_platform (lit ''1/1/24, 9:15 PM - : hi'')
     = Inr [\<lparr> timestamp = \<lparr> year = 2024, month = 1, day = 1, hour = 21, minute = 15 \<rparr>,
               sender = [], msg_text = lit ''hi'' \<rparr>]"
  by (rule parse_blank_sender)

section \<open>Properties of the matcher\<close>

lemma try_down_Some:
  "try_down f lo n = Some x \<Longrightarrow> \<exists>j. lo \<le> j \<and> j \<le> n \<and> f j = Some x"
proof (induction n)
  case 0
  then show ?case by (auto split: if_splits)
next
  case (Suc n)
  show ?case
  proof (cases "f (Suc n)")
    case None
    with Suc.prems have "try_down f lo n = Some x" by (auto split: if_splits)
    from Suc.IH[OF this] show ?thesis by (meson le_SucI)
  next
    case (Some r)
    with Suc.prems have "\<not> Suc n < lo" "f (Suc n) = Some x" by (auto split: if_splits)
    then show ?thesis by (meson le_refl not_le_imp_less not_less)
  qed
qed

lemma matcher_success:
  "matcher r k s g = Some x \<Longrightarrow>
   \<exists>v s' g'. s = v @ s' \<and> accepts r v \<and> (\<forall>m. m \<notin> names r \<longrightarrow> g' m = g m)
     \<and> k s' g' = Some x"
proof (induction r arbitrary: k s g)
  case (Cls p)
  then obtain c cs where "s = c # cs" "p c" "k cs g = Some x"
    by (auto split: list.splits if_splits)
  then have "s = [c] @ cs \<and> accepts (Cls p) [c] \<and> k cs g = Some x" by simp
  then show ?case by blast
next
  case (Many p lo hi)
  define n where "n = (case hi of None \<Rightarrow> length (takeWhile p s) | Some h \<Rightarrow> min h (length (takeWhile p s)))"
  have "try_down (\<lambda>j. k (drop j s) g) lo n = Some x"
    using Many by (simp add: n_def Let_def)
  from try_down_Some[OF this] obtain j where j: "lo \<le> j" "j \<le> n" "k (drop j s) g = Some x"
    by blast
  have jt: "j \<le> length (takeWhile p s)" using j(2) by (auto simp: n_def split: option.splits)
  have jh: "case hi of None \<Rightarrow> True | Some h \<Rightarrow> j \<le> h"
    using j(2) by (auto simp: n_def split: option.splits)
  have js: "j \<le> length s" using jt length_takeWhile_le[of p s] by linarith
  have "take j s = take j (takeWhile p s)"
    using jt by (metis append_eq_conv_conj takeWhile_dropWhile_id take_append take_all_iff
        diff_is_0_eq' take_0 append_Nil2)
  then have "\<forall>c\<in>set (take j s). p c"
    by (metis in_set_takeD set_takeWhileD)
  then have "accepts (Many p lo hi) (take j s)"
    using j(1) jh js by (auto split: option.splits)
  moreover have "s = take j s @ drop j s" by simp
  ultimately show ?case using j(3) by blast
next
  case (Seq a b)
  then have "matcher a (matcher b k) s g = Some x" by simp
  from Seq.IH(1)[OF this] obtain v1 s1 g1 where
    1: "s = v1 @ s1" "accepts a v1" "\<forall>m. m \<notin> names a \<longrightarrow> g1 m = g m"
    "matcher b k s1 g1 = Some x" by blast
  from Seq.IH(2)[OF 1(4)] obtain v2 s2 g2 where
    2: "s1 = v2 @ s2" "accepts b v2" "\<forall>m. m \<notin> names b \<longrightarrow> g2 m = g1 m"
    "k s2 g2 = Some x" by blast
  have "s = (v1 @ v2) @ s2" using 1(1) 2(1) by simp
  moreover have "accepts (Seq a b) (v1 @ v2)" using 1(2) 2(2) by auto
  moreover have "\<forall>m. m \<notin> names (Seq a b) \<longrightarrow> g2 m = g m" using 1(3) 2(3) by simp
  ultimately show ?case using 2(4) by blast
next
  case (Alt a b)
  have "matcher a k s g = Some x \<or> matcher b k s g = Some x"
    using Alt.prems by (cases "matcher a k s g") auto
  then obtain v s' g' where
    1: "s = v @ s'" "accepts a v \<or> accepts b v"
    "(\<forall>m. m \<notin> names a \<longrightarrow> g' m = g m) \<or> (\<forall>m. m \<notin> names b \<longrightarrow> g' m = g m)"
    "k s' g' = Some x"
    using Alt.IH(1)[of k s g] Alt.IH(2)[of k s g] by blast
  have "accepts (Alt a b) v" using 1(2) by simp
  moreover have "\<forall>m. m \<notin> names (Alt a b) \<longrightarrow> g' m = g m" using 1(3) by auto
  ultimately show ?case using 1(1,4) by blast
next
  case Eps
  then have "s = [] @ s \<and> accepts Eps [] \<and> k s g = Some x" by simp
  then show ?case by blast
next
  case (Grp name a)
  then have "matcher a (\<lambda>s' g'. k s' (g'(name \<mapsto> take (length s - length s') s))) s g = Some x"
    by simp
  from Grp.IH[OF this] obtain v s' g' where
    1: "s = v @ s'" "accepts a v" "\<forall>m. m \<notin> names a \<longrightarrow> g' m = g m"
    "k s' (g'(name \<mapsto> take (length s - length s') s)) = Some x" by blast
  have "take (length s - length s') s = v" using 1(1) by simp
  with 1(4) have "k s' (g'(name \<mapsto> v)) = Some x" by simp
  moreover have "\<forall>m. m \<notin> names (Grp name a) \<longrightarrow> (g'(name \<mapsto> v)) m = g m" using 1(3) by simp
  ultimately show ?case using 1(1,2) by (metis accepts.simps(6))
next
  case Eos
  then have "s = [] @ s \<and> accepts Eos [] \<and> k s g = Some x" by (simp split: if_splits)
  then show ?case by blast
qed

lemma matcher_plain:
  assumes "names r = {}" and "matcher r k s g = Some x"
  shows "\<exists>v s'. s = v @ s' \<and> accepts r v \<and> k s' g = Some x"
proof -
  from matcher_success[OF assms(2)] obtain v s' g' where
    1: "s = v @ s'" "accepts r v" "\<forall>m. m \<notin> names r \<longrightarrow> g' m = g m" "k s' g' = Some x"
    by blast
  have "g' = g" using 1(3) assms(1) by (intro ext) simp
  with 1 show ?thesis by blast
qed

lemma matcher_group:
  assumes "names a = {}" and "matcher (Grp n a) k s g = Some x"
  shows "\<exists>v s'. s = v @ s' \<and> accepts a v \<and> k s' (g(n \<mapsto> v)) = Some x"
proof -
  have "matcher a (\<lambda>s' g'. k s' (g'(n \<mapsto> take (length s - length s') s))) s g = Some x"
    using assms(2) by simp
  from matcher_plain[OF assms(1) this] obtain v s' where
    1: "s = v @ s'" "accepts a v" "k s' (g(n \<mapsto> take (length s - length s') s)) = Some x"
    by blast
  have "take (length s - length s') s = v" using 1(1) by simp
  with 1 show ?thesis by auto
qed

lemma matcher_Eps: "matcher Eps k = k"
  by (intro ext) simp

lemma matcher_seq_Cons: "matcher (seq (r # rs)) k = matcher r (matcher (seq rs) k)"
  by (cases rs) (auto simp: matcher_Eps intro!: ext)

lemma matcher_seq_append:
  "matcher (seq (rs1 @ rs2)) k = matcher (seq rs1) (matcher (seq rs2) k)"
proof (induction rs1 arbitrary: k)
  case Nil
  show ?case by (simp add: matcher_Eps)
next
  case (Cons r rs1)
  have "matcher (seq ((r # rs1) @ rs2)) k = matcher r (matcher (seq (rs1 @ rs2)) k)"
    using matcher_seq_Cons[of r "rs1 @ rs2" k] by simp
  also have "\<dots> = matcher r (matcher (seq rs1) (matcher (seq rs2) k))" by (simp add: Cons.IH)
  also have "\<dots> = matcher (seq (r # rs1)) (matcher (seq rs2) k)"
    by (simp add: matcher_seq_Cons)
  finally show ?case .
qed

lemma names_seq: "names (seq rs) = (\<Union>r\<in>set rs. names r)"
  by (induction rs rule: seq.induct) auto

lemma header_sender:
  assumes "re_match (MESSAGE_RE P) line = Some (m, rest)"
  shows "\<exists>raw. m ''sender'' = Some raw \<and> raw \<noteq> [] \<and> 58 \<notin> set raw"
proof -
  define pre where "pre =
     [Grp ''date'' (seq [Many (is_digit P) 1 (Some 2), chr 47, Many (is_digit P) 1 (Some 2),
                            chr 47, Many (is_digit P) 2 (Some 4)]),
          chr 44, Many is_space 0 None,
          Grp ''time'' (seq [Many (is_digit P) 1 (Some 2), chr 58, Many (is_digit P) 2 (Some 2)]),
          Many is_space 0 None,
          Alt (Grp ''ampm'' (Alt (seq [chr 65, chr 77]) (seq [chr 80, chr 77]))) Eps,
          Many is_space 0 None, chr 45, Many is_space 0 None]"
  define post where "post = [chr 58, Many is_space 0 None,
          Grp ''text'' (Many (\<lambda>c. c \<noteq> 10) 0 None), Eos]"
  define k0 :: "ustr \<Rightarrow> groups \<Rightarrow> (groups \<times> ustr) option" where "k0 = (\<lambda>s' g'. Some (g', s'))"
  have re: "MESSAGE_RE P = seq (pre @ Grp ''sender'' (Many (\<lambda>c. c \<noteq> 58) 1 None) # post)"
    by (simp add: MESSAGE_RE_def pre_def post_def)
  have "matcher (seq pre)
          (matcher (Grp ''sender'' (Many (\<lambda>c. c \<noteq> 58) 1 None)) (matcher (seq post) k0))
          line Map.empty = Some (m, rest)"
    using assms unfolding re_match_def re matcher_seq_append matcher_seq_Cons k0_def .
  from matcher_success[OF this] obtain s1 g1 where
    "matcher (Grp ''sender'' (Many (\<lambda>c. c \<noteq> 58) 1 None)) (matcher (seq post) k0) s1 g1
       = Some (m, rest)" by blast
  from matcher_group[OF _ this] obtain raw s2 where
    raw: "accepts (Many (\<lambda>c. c \<noteq> 58) 1 None) raw"
    and 2: "matcher (seq post) k0 s2 (g1(''sender'' \<mapsto> raw)) = Some (m, rest)" by auto
  from matcher_success[OF 2] obtain s3 g3 where
    3: "\<forall>n. n \<notin> names (seq post) \<longrightarrow> g3 n = (g1(''sender'' \<mapsto> raw)) n"
    and k: "k0 s3 g3 = Some (m, rest)" by blast
  have "''sender'' \<notin> names (seq post)" by (simp add: names_seq post_def chr_def)
  with 3 have "g3 ''sender'' = Some raw" by simp
  moreover have "g3 = m" using k by (simp add: k0_def)
  ultimately have "m ''sender'' = Some raw" by simp
  moreover have "raw \<noteq> [] \<and> 58 \<notin> set raw" using raw by auto
  ultimately show ?thesis by blast
qed

lemma set_strip_with: "set (strip_with p s) \<subseteq> set s"
  unfolding strip_with_def by (auto dest!: set_dropWhileD)

lemma strip_with_Nil_iff: "strip_with p s = [] \<longleftrightarrow> (\<forall>c\<in>set s. p c)"
proof -
  define d where "d = dropWhile p s"
  have 1: "strip_with p s = [] \<longleftrightarrow> (\<forall>c\<in>set d. p c)"
    unfolding strip_with_def d_def[symmetric] by (simp add: dropWhile_eq_Nil_conv)
  have 2: "(\<forall>c\<in>set d. p c) \<longleftrightarrow> d = []"
  proof
    assume a: "\<forall>c\<in>set d. p c"
    show "d = []"
    proof (rule ccontr)
      assume "d \<noteq> []"
      then have "\<not> p (hd d)" unfolding d_def by (rule hd_dropWhile)
      moreover have "hd d \<in> set d" using \<open>d \<noteq> []\<close> by simp
      ultimately show False using a by blast
    qed
  next
    assume "d = []"
    then show "\<forall>c\<in>set d. p c" by simp
  qed
  have 3: "d = [] \<longleftrightarrow> (\<forall>c\<in>set s. p c)"
    unfolding d_def by (rule dropWhile_eq_Nil_conv)
  show ?thesis using 1 2 3 by blast
qed

lemma strip_with_ends:
  assumes "strip_with p s \<noteq> []"
  shows "\<not> p (hd (strip_with p s)) \<and> \<not> p (last (strip_with p s))"
proof -
  define d where "d = dropWhile p s"
  define e where "e = dropWhile p (rev d)"
  have t: "strip_with p s = rev e" by (simp add: strip_with_def d_def e_def)
  have ne: "e \<noteq> []" using assms t by simp
  then have "\<not> p (hd e)" unfolding e_def by (rule hd_dropWhile)
  then have l: "\<not> p (last (rev e))" using ne by (simp add: last_rev)
  have "rev d = takeWhile p (rev d) @ e" by (simp add: e_def)
  then have "d = rev e @ rev (takeWhile p (rev d))" by (metis rev_append rev_rev_ident)
  then have "hd d = hd (rev e)" using ne by (metis hd_append2 rev_is_Nil_conv)
  moreover have "d \<noteq> []" using ne e_def by auto
  then have "\<not> p (hd d)" unfolding d_def by (rule hd_dropWhile)
  ultimately show ?thesis using l t by simp
qed

lemma make_datetime_valid: "make_datetime y m d h mi = Inr dt \<Longrightarrow> valid_datetime dt"
  by (auto simp: make_datetime_def Let_def split: if_splits)

lemma strptime_valid: "strptime P s r = Inr dt \<Longrightarrow> valid_datetime dt"
  by (auto simp: strptime_def Let_def split: option.splits prod.splits if_splits
      dest: make_datetime_valid)

lemma parse_timestamp_valid: "parse_timestamp P d t a = Inr dt \<Longrightarrow> valid_datetime dt"
  by (auto simp: parse_timestamp_def Let_def split: list.splits option.splits if_splits
      dest: strptime_valid)

lemma header_message_sender:
  assumes "header_message P line = Some (Inr m0)"
  shows "valid_datetime (timestamp m0)
    \<and> (\<exists>raw. raw \<noteq> [] \<and> 58 \<notin> set raw \<and> sender m0 = strip_with is_space raw)"
proof -
  obtain m rest where re: "re_match (MESSAGE_RE P) line = Some (m, rest)"
    using assms by (auto simp: header_message_def split: option.splits)
  from header_sender[OF re] obtain raw where
    raw: "m ''sender'' = Some raw" "raw \<noteq> []" "58 \<notin> set raw" by blast
  obtain ts where ts: "parse_timestamp P (case m ''date'' of Some s \<Rightarrow> s | None \<Rightarrow> [])
                  (case m ''time'' of Some s \<Rightarrow> s | None \<Rightarrow> []) (m ''ampm'') = Inr ts"
    and m0: "m0 = \<lparr> timestamp = ts, sender = strip_with is_space raw,
                    msg_text = (case m ''text'' of Some s \<Rightarrow> s | None \<Rightarrow> []) \<rparr>"
    using assms re raw(1) by (auto simp: header_message_def split: sum.splits)
  show ?thesis using parse_timestamp_valid[OF ts] raw(2,3) m0 by auto
qed

lemma header_message_parts:
  assumes "header_message P line = Some (Inr m0)"
  shows "\<exists>raw. header_sender_text P line = Some raw \<and> raw \<noteq> [] \<and> 58 \<notin> set raw
    \<and> sender m0 = strip_with is_space raw
    \<and> header_timestamp P line = Some (Inr (timestamp m0))
    \<and> valid_datetime (timestamp m0)"
proof -
  obtain m rest where re: "re_match (MESSAGE_RE P) line = Some (m, rest)"
    using assms by (auto simp: header_message_def split: option.splits)
  from header_sender[OF re] obtain raw where
    raw: "m ''sender'' = Some raw" "raw \<noteq> []" "58 \<notin> set raw" by blast
  obtain ts where ts: "parse_timestamp P (case m ''date'' of Some s \<Rightarrow> s | None \<Rightarrow> [])
                  (case m ''time'' of Some s \<Rightarrow> s | None \<Rightarrow> []) (m ''ampm'') = Inr ts"
    and m0: "m0 = \<lparr> timestamp = ts, sender = strip_with is_space raw,
                    msg_text = (case m ''text'' of Some s \<Rightarrow> s | None \<Rightarrow> []) \<rparr>"
    using assms re raw(1) by (auto simp: header_message_def split: sum.splits)
  have 1: "header_sender_text P line = Some raw" by (simp add: header_sender_text_def re raw(1))
  have 2: "header_timestamp P line = Some (Inr (timestamp m0))"
    by (simp add: header_timestamp_def re ts m0)
  have 3: "valid_datetime (timestamp m0)" using parse_timestamp_valid[OF ts] m0 by simp
  show ?thesis using 1 2 3 raw(2,3) m0 by auto
qed

lemma started_by_record:
  assumes "started_by P msg line"
  shows "record_of_header P msg line"
proof -
  obtain m0 where m0: "header_message P line = Some (Inr m0)" and e: "extends msg m0"
    using assms by (auto simp: started_by_def split: option.splits sum.splits)
  from header_message_parts[OF m0] obtain raw where
    r: "header_sender_text P line = Some raw" "raw \<noteq> []" "58 \<notin> set raw"
    "sender m0 = strip_with is_space raw"
    "header_timestamp P line = Some (Inr (timestamp m0))" "valid_datetime (timestamp m0)"
    by blast
  have s: "sender msg = strip_with is_space raw" and t: "timestamp msg = timestamp m0"
    using e r(4) by (simp_all add: extends_def)
  have 1: "58 \<notin> set (sender msg)" using r(3) set_strip_with[of is_space raw] s by auto
  have 2: "sender msg = [] \<or> (\<not> is_space (hd (sender msg)) \<and> \<not> is_space (last (sender msg)))"
    using strip_with_ends[of is_space raw] s by auto
  have 3: "sender msg = [] \<longleftrightarrow> list_all is_space raw"
    using strip_with_Nil_iff[of is_space raw] s by (simp add: list_all_iff)
  show ?thesis
    unfolding record_of_header_def r(1) using r(2,3,5,6) s t 1 2 3 by simp
qed

text \<open>
  C4, amended. The message records produced by \<open>parse_chat\<close> correspond, in order, to
  the lines that match the header pattern, and each record has a valid timestamp, the
  one its line parses to, and as sender the whitespace-trimmed text that
  \<^verbatim>\<open>[^:]+\<close> matched in its line: that text is not empty and has no colon, the
  sender has no colon and neither starts nor ends with whitespace, and the sender is
  empty exactly when the matched text is whitespace only.
\<close>

theorem parsed_sender_and_timestamp:
  assumes "parse_chat P content = Inr msgs"
  shows "list_all2 (record_of_header P) msgs (filter (is_header P) (content_lines content))"
  using parse_chat_headers[OF assms]
  by (rule list_all2_mono) (rule started_by_record)

lemma blank_sender_text:
  "header_sender_text ascii_platform (lit ''1/1/24, 9:15 PM - : hi'') = Some [32]"
  by (simp add: header_sender_text_def rx_eval lit_def)

lemma blank_sender_lines:
  "filter (is_header ascii_platform) (content_lines (lit ''1/1/24, 9:15 PM - : hi''))
     = [lit ''1/1/24, 9:15 PM - : hi'']"
proof -
  have "content_lines (lit ''1/1/24, 9:15 PM - : hi'') = [lit ''1/1/24, 9:15 PM - : hi'']"
    by (simp add: content_lines_def strip_with_def lit_def)
  then show ?thesis by (simp add: is_header_message header_blank_sender)
qed

theorem parsed_sender_and_timestamp_witness:
  "parse_chat ascii_platform (lit ''1/1/24, 9:15 PM - : hi'')
     = Inr [\<lparr> timestamp = \<lparr> year = 2024, month = 1, day = 1, hour = 21, minute = 15 \<rparr>,
               sender = [], msg_text = lit ''hi'' \<rparr>]
   \<and> filter (is_header ascii_platform) (content_lines (lit ''1/1/24, 9:15 PM - : hi''))
     = [lit ''1/1/24, 9:15 PM - : hi'']
   \<and> header_sender_text ascii_platform (lit ''1/1/24, 9:15 PM - : hi'') = Some [32]
   \<and> record_of_header ascii_platform
        \<lparr> timestamp = \<lparr> year = 2024, month = 1, day = 1, hour = 21, minute = 15 \<rparr>,
           sender = [], msg_text = lit ''hi'' \<rparr>
        (lit ''1/1/24, 9:15 PM - : hi'')"
proof -
  note t = parsed_sender_and_timestamp[OF parse_blank_sender, unfolded blank_sender_lines]
  from t have "record_of_header ascii_platform
        \<lparr> timestamp = \<lparr> year = 2024, month = 1, day = 1, hour = 21, minute = 15 \<rparr>,
           sender = [], msg_text = lit ''hi'' \<rparr>
        (lit ''1/1/24, 9:15 PM - : hi'')" by simp
  then show ?thesis using parse_blank_sender blank_sender_lines blank_sender_text by blast
qed

section \<open>The timestamp of a header\<close>

lemma peel_group:
  assumes "names a = {}" and "matcher (seq (Grp n a # rs)) k s g = Some x"
  shows "\<exists>v s'. s = v @ s' \<and> accepts a v \<and> matcher (seq rs) k s' (g(n \<mapsto> v)) = Some x"
  using matcher_group[OF assms(1), of n "matcher (seq rs) k" s g x] assms(2)
  by (simp add: matcher_seq_Cons)

lemma peel_plain:
  assumes "names r = {}" and "matcher (seq (r # rs)) k s g = Some x"
  shows "\<exists>v s'. s = v @ s' \<and> accepts r v \<and> matcher (seq rs) k s' g = Some x"
  using matcher_plain[OF assms(1), of "matcher (seq rs) k" s g x] assms(2)
  by (simp add: matcher_seq_Cons)

lemma peel_chr:
  assumes "matcher (seq (chr c # rs)) k s g = Some x"
  shows "\<exists>s'. s = c # s' \<and> matcher (seq rs) k s' g = Some x"
  using peel_plain[OF _ assms] by (auto simp: chr_def)

lemma peel_end:
  assumes "matcher (seq []) (\<lambda>s' g'. Some (g', s')) s g = Some (found, rest)"
  shows "found = g \<and> rest = s"
  using assms by simp

lemma names_chr [simp]: "names (chr c) = {}"
  by (simp add: chr_def)

lemma names_rng [simp]: "names (rng a b) = {}"
  by (simp add: rng_def)

lemma accepts_seq_Cons: "accepts (seq (r # rs)) v \<longleftrightarrow> (\<exists>v1 v2. v = v1 @ v2 \<and> accepts r v1 \<and> accepts (seq rs) v2)"
  by (cases rs) auto

lemma accepts_seq_Nil: "accepts (seq []) v \<longleftrightarrow> v = []"
  by simp

lemma accepts_chr: "accepts (chr c) v \<longleftrightarrow> v = [c]"
  by (auto simp: chr_def)

lemma header_groups:
  assumes "re_match (MESSAGE_RE P) line = Some (m, rest)"
  shows "\<exists>mo dy yr hh mi.
      m ''date'' = Some (mo @ [47] @ dy @ [47] @ yr) \<and> m ''time'' = Some (hh @ [58] @ mi)
      \<and> (\<forall>c\<in>set (mo @ dy @ yr @ hh @ mi). is_digit P c)
      \<and> 1 \<le> length mo \<and> length mo \<le> 2 \<and> 1 \<le> length dy \<and> length dy \<le> 2
      \<and> 2 \<le> length yr \<and> length yr \<le> 4 \<and> 1 \<le> length hh \<and> length hh \<le> 2 \<and> length mi = 2
      \<and> (m ''ampm'' = None \<or> m ''ampm'' = Some (lit ''AM'') \<or> m ''ampm'' = Some (lit ''PM''))"
proof -
  define date_rx where "date_rx = seq [Many (is_digit P) 1 (Some 2), chr 47,
      Many (is_digit P) 1 (Some 2), chr 47, Many (is_digit P) 2 (Some 4)]"
  define time_rx where "time_rx = seq [Many (is_digit P) 1 (Some 2), chr 58,
      Many (is_digit P) 2 (Some 2)]"
  define ampm_rx where "ampm_rx = Alt (seq [chr 65, chr 77]) (seq [chr 80, chr 77])"
  define tail where "tail = [Many is_space 0 None, chr 45, Many is_space 0 None,
          Grp ''sender'' (Many (\<lambda>c. c \<noteq> 58) 1 None),
          chr 58, Many is_space 0 None,
          Grp ''text'' (Many (\<lambda>c. c \<noteq> 10) 0 None), Eos]"
  define k0 :: "ustr \<Rightarrow> groups \<Rightarrow> (groups \<times> ustr) option" where "k0 = (\<lambda>s' g'. Some (g', s'))"
  have re: "MESSAGE_RE P = seq (Grp ''date'' date_rx # chr 44 # Many is_space 0 None
      # Grp ''time'' time_rx # Many is_space 0 None # Alt (Grp ''ampm'' ampm_rx) Eps # tail)"
    by (simp add: MESSAGE_RE_def date_rx_def time_rx_def ampm_rx_def tail_def)
  have n_date: "names date_rx = {}" by (simp add: date_rx_def)
  have n_time: "names time_rx = {}" by (simp add: time_rx_def)
  have n_ampm: "names ampm_rx = {}" by (simp add: ampm_rx_def)
  have 0: "matcher (seq (Grp ''date'' date_rx # chr 44 # Many is_space 0 None
      # Grp ''time'' time_rx # Many is_space 0 None # Alt (Grp ''ampm'' ampm_rx) Eps # tail))
      k0 line Map.empty = Some (m, rest)"
    using assms unfolding re_match_def re k0_def .
  from peel_group[OF n_date 0] obtain v1 s1 where
    v1: "accepts date_rx v1"
    and 1: "matcher (seq (chr 44 # Many is_space 0 None
      # Grp ''time'' time_rx # Many is_space 0 None # Alt (Grp ''ampm'' ampm_rx) Eps # tail))
      k0 s1 [''date'' \<mapsto> v1] = Some (m, rest)" by blast
  from peel_chr[OF 1] obtain s2 where
    2: "matcher (seq (Many is_space 0 None
      # Grp ''time'' time_rx # Many is_space 0 None # Alt (Grp ''ampm'' ampm_rx) Eps # tail))
      k0 s2 [''date'' \<mapsto> v1] = Some (m, rest)" by blast
  from peel_plain[OF _ 2] obtain s3 where
    3: "matcher (seq (Grp ''time'' time_rx # Many is_space 0 None
      # Alt (Grp ''ampm'' ampm_rx) Eps # tail))
      k0 s3 [''date'' \<mapsto> v1] = Some (m, rest)" by auto
  from peel_group[OF n_time 3] obtain v2 s4 where
    v2: "accepts time_rx v2"
    and 4: "matcher (seq (Many is_space 0 None # Alt (Grp ''ampm'' ampm_rx) Eps # tail))
      k0 s4 [''date'' \<mapsto> v1, ''time'' \<mapsto> v2] = Some (m, rest)" by blast
  from peel_plain[OF _ 4] obtain s5 where
    5: "matcher (seq (Alt (Grp ''ampm'' ampm_rx) Eps # tail))
      k0 s5 [''date'' \<mapsto> v1, ''time'' \<mapsto> v2] = Some (m, rest)" by auto
  have "matcher (Alt (Grp ''ampm'' ampm_rx) Eps) (matcher (seq tail) k0) s5
      [''date'' \<mapsto> v1, ''time'' \<mapsto> v2] = Some (m, rest)"
    using 5 by (simp add: matcher_seq_Cons)
  then have "matcher (Grp ''ampm'' ampm_rx) (matcher (seq tail) k0) s5
      [''date'' \<mapsto> v1, ''time'' \<mapsto> v2] = Some (m, rest)
    \<or> matcher (seq tail) k0 s5 [''date'' \<mapsto> v1, ''time'' \<mapsto> v2] = Some (m, rest)"
    by (auto split: option.splits)
  then obtain g6 s6 where
    6: "matcher (seq tail) k0 s6 g6 = Some (m, rest)"
    and g6: "g6 ''date'' = Some v1" "g6 ''time'' = Some v2"
    "g6 ''ampm'' = None \<or> (\<exists>v3. g6 ''ampm'' = Some v3 \<and> accepts ampm_rx v3)"
  proof
    assume "matcher (Grp ''ampm'' ampm_rx) (matcher (seq tail) k0) s5
      [''date'' \<mapsto> v1, ''time'' \<mapsto> v2] = Some (m, rest)"
    from matcher_group[OF n_ampm this] obtain v3 s6 where
      "accepts ampm_rx v3"
      "matcher (seq tail) k0 s6 [''date'' \<mapsto> v1, ''time'' \<mapsto> v2, ''ampm'' \<mapsto> v3] = Some (m, rest)"
      by blast
    then show ?thesis using that[of s6 "[''date'' \<mapsto> v1, ''time'' \<mapsto> v2, ''ampm'' \<mapsto> v3]"]
      by simp
  next
    assume "matcher (seq tail) k0 s5 [''date'' \<mapsto> v1, ''time'' \<mapsto> v2] = Some (m, rest)"
    then show ?thesis using that[of s5 "[''date'' \<mapsto> v1, ''time'' \<mapsto> v2]"] by simp
  qed
  from matcher_success[OF 6] obtain s7 g7 where
    7: "\<forall>n. n \<notin> names (seq tail) \<longrightarrow> g7 n = g6 n" and k: "k0 s7 g7 = Some (m, rest)" by blast
  have nt: "''date'' \<notin> names (seq tail)" "''time'' \<notin> names (seq tail)"
    "''ampm'' \<notin> names (seq tail)"
    by (simp_all add: names_seq tail_def)
  have "g7 = m" using k by (simp add: k0_def)
  then have md: "m ''date'' = Some v1" and mt: "m ''time'' = Some v2"
    and ma: "m ''ampm'' = None \<or> (\<exists>v3. m ''ampm'' = Some v3 \<and> accepts ampm_rx v3)"
    using 7 nt g6 by auto
  from v1 obtain mo dy yr where
    d: "v1 = mo @ [47] @ dy @ [47] @ yr" "\<forall>c\<in>set (mo @ dy @ yr). is_digit P c"
    "1 \<le> length mo" "length mo \<le> 2" "1 \<le> length dy" "length dy \<le> 2"
    "2 \<le> length yr" "length yr \<le> 4"
    unfolding date_rx_def accepts_seq_Cons accepts_seq_Nil accepts_chr by auto blast
  from v2 obtain hh mi where
    t: "v2 = hh @ [58] @ mi" "\<forall>c\<in>set (hh @ mi). is_digit P c"
    "1 \<le> length hh" "length hh \<le> 2" "length mi = 2"
    unfolding time_rx_def accepts_seq_Cons accepts_seq_Nil accepts_chr by auto blast
  have a: "m ''ampm'' = None \<or> m ''ampm'' = Some (lit ''AM'') \<or> m ''ampm'' = Some (lit ''PM'')"
    using ma unfolding ampm_rx_def by (auto simp: accepts_seq_Cons accepts_chr lit_def)
  have ds: "\<forall>c\<in>set (mo @ dy @ yr @ hh @ mi). is_digit P c" using d(2) t(2) by auto
  have body: "m ''date'' = Some (mo @ [47] @ dy @ [47] @ yr) \<and> m ''time'' = Some (hh @ [58] @ mi)
      \<and> (\<forall>c\<in>set (mo @ dy @ yr @ hh @ mi). is_digit P c)
      \<and> 1 \<le> length mo \<and> length mo \<le> 2 \<and> 1 \<le> length dy \<and> length dy \<le> 2
      \<and> 2 \<le> length yr \<and> length yr \<le> 4 \<and> 1 \<le> length hh \<and> length hh \<le> 2 \<and> length mi = 2
      \<and> (m ''ampm'' = None \<or> m ''ampm'' = Some (lit ''AM'') \<or> m ''ampm'' = Some (lit ''PM''))"
    using md mt d(1,3-8) t(1,3-5) a ds by (simp only: simp_thms)
  show ?thesis
    by (rule exI[of _ mo], rule exI[of _ dy], rule exI[of _ yr], rule exI[of _ hh],
        rule exI[of _ mi], rule body)
qed

lemma takeWhile_split:
  assumes "\<forall>x\<in>set a. \<not> Q x" and "b = [] \<or> Q (hd b)"
  shows "takeWhile (\<lambda>x. \<not> Q x) (a @ b) = a"
proof (cases b)
  case Nil
  then show ?thesis using assms(1) by simp
next
  case (Cons y ys)
  then have "Q y" using assms(2) by simp
  then have "takeWhile (\<lambda>x. \<not> Q x) b = []" using Cons by simp
  then show ?thesis using assms(1) by (simp add: takeWhile_append2)
qed

lemma align:
  assumes "a @ b = a' @ b'"
    and "\<forall>x\<in>set a. \<not> Q x" and "\<forall>x\<in>set a'. \<not> Q x"
    and "b = [] \<or> Q (hd b)" and "b' = [] \<or> Q (hd b')"
  shows "a = a' \<and> b = b'"
proof -
  have "a = takeWhile (\<lambda>x. \<not> Q x) (a @ b)"
    by (rule takeWhile_split[OF assms(2,4), symmetric])
  also have "\<dots> = takeWhile (\<lambda>x. \<not> Q x) (a' @ b')" by (simp only: assms(1))
  also have "\<dots> = a'" by (rule takeWhile_split[OF assms(3,5)])
  finally have "a = a'" .
  with assms(1) show ?thesis by simp
qed

lemma field_align:
  assumes "v @ c # s = f @ c # t" and "c \<notin> set v" and "c \<notin> set f"
  shows "v = f \<and> s = t"
  using align[of v "c # s" f "c # t" "\<lambda>x. x = c"] assms by auto

lemma digit_not_sep:
  "\<not> is_digit P 47" "\<not> is_digit P 44" "\<not> is_digit P 58" "\<not> is_digit P 32"
  by (simp_all add: is_digit_def)

lemma peel_dir_m:
  assumes "matcher (seq (dir_m # rs)) k s g = Some x"
  shows "\<exists>v s'. s = v @ s' \<and> v \<noteq> [] \<and> (\<forall>c\<in>set v. 48 \<le> c \<and> c \<le> 57)
    \<and> matcher (seq rs) k s' (g(''m'' \<mapsto> v)) = Some x"
proof -
  define R where "R = Alt (seq [chr 49, rng 48 50]) (Alt (seq [chr 48, rng 49 57]) (rng 49 57))"
  have n: "names R = {}" by (simp add: R_def)
  have "matcher (seq (Grp ''m'' R # rs)) k s g = Some x"
    using assms by (simp only: dir_m_def R_def)
  from peel_group[OF n this] obtain v s' where
    1: "s = v @ s'" "matcher (seq rs) k s' (g(''m'' \<mapsto> v)) = Some x"
    and a: "accepts R v"
    by blast
  from a have "v \<noteq> [] \<and> (\<forall>c\<in>set v. 48 \<le> c \<and> c \<le> 57)"
    unfolding R_def by (auto simp: chr_def rng_def)
  with 1 show ?thesis by blast
qed

lemma peel_dir_I:
  assumes "matcher (seq (dir_I # rs)) k s g = Some x"
  shows "\<exists>v s'. s = v @ s' \<and> v \<noteq> [] \<and> (\<forall>c\<in>set v. 48 \<le> c \<and> c \<le> 57)
    \<and> matcher (seq rs) k s' (g(''I'' \<mapsto> v)) = Some x"
proof -
  define R where "R = Alt (seq [chr 49, rng 48 50]) (Alt (seq [chr 48, rng 49 57]) (rng 49 57))"
  have n: "names R = {}" by (simp add: R_def)
  have "matcher (seq (Grp ''I'' R # rs)) k s g = Some x"
    using assms by (simp only: dir_I_def R_def)
  from peel_group[OF n this] obtain v s' where
    1: "s = v @ s'" "matcher (seq rs) k s' (g(''I'' \<mapsto> v)) = Some x"
    and a: "accepts R v"
    by blast
  from a have "v \<noteq> [] \<and> (\<forall>c\<in>set v. 48 \<le> c \<and> c \<le> 57)"
    unfolding R_def by (auto simp: chr_def rng_def)
  with 1 show ?thesis by blast
qed

lemma peel_dir_d:
  assumes "matcher (seq (dir_d P # rs)) k s g = Some x"
  shows "\<exists>v s'. s = v @ s' \<and> v \<noteq> [] \<and> (\<forall>c\<in>set v. is_digit P c \<or> c = 32)
    \<and> matcher (seq rs) k s' (g(''d'' \<mapsto> v)) = Some x"
proof -
  define R where "R = Alt (seq [chr 51, rng 48 49]) (Alt (seq [rng 49 50, Cls (is_digit P)]) (Alt (seq [chr 48, rng 49 57]) (Alt (rng 49 57) (seq [chr 32, rng 49 57]))))"
  have n: "names R = {}" by (simp add: R_def)
  have "matcher (seq (Grp ''d'' R # rs)) k s g = Some x"
    using assms by (simp only: dir_d_def R_def)
  from peel_group[OF n this] obtain v s' where
    1: "s = v @ s'" "matcher (seq rs) k s' (g(''d'' \<mapsto> v)) = Some x"
    and a: "accepts R v"
    by blast
  from a have "v \<noteq> [] \<and> (\<forall>c\<in>set v. is_digit P c \<or> c = 32)"
    unfolding R_def by (auto simp: chr_def rng_def is_digit_def)
  with 1 show ?thesis by blast
qed

lemma peel_dir_Y:
  assumes "matcher (seq (dir_Y P # rs)) k s g = Some x"
  shows "\<exists>v s'. s = v @ s' \<and> length v = 4 \<and> (\<forall>c\<in>set v. is_digit P c)
    \<and> matcher (seq rs) k s' (g(''Y'' \<mapsto> v)) = Some x"
proof -
  define R where "R = seq [Cls (is_digit P), Cls (is_digit P), Cls (is_digit P), Cls (is_digit P)]"
  have n: "names R = {}" by (simp add: R_def)
  have "matcher (seq (Grp ''Y'' R # rs)) k s g = Some x"
    using assms by (simp only: dir_Y_def R_def)
  from peel_group[OF n this] obtain v s' where
    1: "s = v @ s'" "matcher (seq rs) k s' (g(''Y'' \<mapsto> v)) = Some x"
    and a: "accepts R v"
    by blast
  from a have "length v = 4 \<and> (\<forall>c\<in>set v. is_digit P c)"
    unfolding R_def by (auto simp: )
  with 1 show ?thesis by blast
qed

lemma peel_dir_H:
  assumes "matcher (seq (dir_H P # rs)) k s g = Some x"
  shows "\<exists>v s'. s = v @ s' \<and> v \<noteq> [] \<and> (\<forall>c\<in>set v. is_digit P c)
    \<and> matcher (seq rs) k s' (g(''H'' \<mapsto> v)) = Some x"
proof -
  define R where "R = Alt (seq [chr 50, rng 48 51]) (Alt (seq [rng 48 49, Cls (is_digit P)]) (Cls (is_digit P)))"
  have n: "names R = {}" by (simp add: R_def)
  have "matcher (seq (Grp ''H'' R # rs)) k s g = Some x"
    using assms by (simp only: dir_H_def R_def)
  from peel_group[OF n this] obtain v s' where
    1: "s = v @ s'" "matcher (seq rs) k s' (g(''H'' \<mapsto> v)) = Some x"
    and a: "accepts R v"
    by blast
  from a have "v \<noteq> [] \<and> (\<forall>c\<in>set v. is_digit P c)"
    unfolding R_def by (auto simp: chr_def rng_def is_digit_def)
  with 1 show ?thesis by blast
qed

lemma peel_dir_M:
  assumes "matcher (seq (dir_M P # rs)) k s g = Some x"
  shows "\<exists>v s'. s = v @ s' \<and> v \<noteq> [] \<and> (\<forall>c\<in>set v. is_digit P c)
    \<and> matcher (seq rs) k s' (g(''M'' \<mapsto> v)) = Some x"
proof -
  define R where "R = Alt (seq [rng 48 53, Cls (is_digit P)]) (Cls (is_digit P))"
  have n: "names R = {}" by (simp add: R_def)
  have "matcher (seq (Grp ''M'' R # rs)) k s g = Some x"
    using assms by (simp only: dir_M_def R_def)
  from peel_group[OF n this] obtain v s' where
    1: "s = v @ s'" "matcher (seq rs) k s' (g(''M'' \<mapsto> v)) = Some x"
    and a: "accepts R v"
    by blast
  from a have "v \<noteq> [] \<and> (\<forall>c\<in>set v. is_digit P c)"
    unfolding R_def by (auto simp: chr_def rng_def is_digit_def)
  with 1 show ?thesis by blast
qed

lemma peel_dir_p:
  assumes "matcher (seq (dir_p # rs)) k s g = Some x"
  shows "\<exists>v s'. s = v @ s' \<and> v \<noteq> [] \<and> \<not> is_space (hd v)
    \<and> matcher (seq rs) k s' (g(''p'' \<mapsto> v)) = Some x"
proof -
  define R where "R = Alt (seq [Cls (\<lambda>c. c = 97 \<or> c = 65), Cls (\<lambda>c. c = 109 \<or> c = 77)]) (seq [Cls (\<lambda>c. c = 112 \<or> c = 80), Cls (\<lambda>c. c = 109 \<or> c = 77)])"
  have n: "names R = {}" by (simp add: R_def)
  have "matcher (seq (Grp ''p'' R # rs)) k s g = Some x"
    using assms by (simp only: dir_p_def R_def)
  from peel_group[OF n this] obtain v s' where
    1: "s = v @ s'" "matcher (seq rs) k s' (g(''p'' \<mapsto> v)) = Some x"
    and a: "accepts R v"
    by blast
  from a have "v \<noteq> [] \<and> \<not> is_space (hd v)"
    unfolding R_def by (auto simp: is_space_def)
  with 1 show ?thesis by blast
qed

lemma peel_spaces:
  assumes "matcher (seq (Many is_space 1 None # rs)) k s g = Some x"
  shows "\<exists>w s'. s = w @ s' \<and> w \<noteq> [] \<and> (\<forall>c\<in>set w. is_space c)
    \<and> matcher (seq rs) k s' g = Some x"
proof -
  have n: "names (Many is_space 1 None) = {}" by simp
  from peel_plain[OF n assms] obtain w s' where
    1: "s = w @ s'" "matcher (seq rs) k s' g = Some x"
    and a: "accepts (Many is_space 1 None) w"
    by blast
  from a have "w \<noteq> [] \<and> (\<forall>c\<in>set w. is_space c)" by auto
  with 1 show ?thesis by blast
qed

lemma digits_no_sep:
  assumes "\<forall>c\<in>set v. is_digit P c \<or> c = 32"
  shows "47 \<notin> set v" "44 \<notin> set v" "58 \<notin> set v"
  using assms digit_not_sep[of P] by auto

lemma date_prefix:
  assumes m: "matcher (seq (dir_m # chr 47 # dir_d P # chr 47 # dir_Y P # chr 44 # rs)) k
                (mo @ 47 # dy @ 47 # yr @ 44 # t) g = Some x"
    and d: "\<forall>c\<in>set (mo @ dy @ yr). is_digit P c"
  shows "matcher (seq rs) k t (g(''m'' \<mapsto> mo, ''d'' \<mapsto> dy, ''Y'' \<mapsto> yr)) = Some x"
proof -
  have dm: "\<forall>c\<in>set mo. is_digit P c \<or> c = 32" and dd: "\<forall>c\<in>set dy. is_digit P c \<or> c = 32"
    and dy: "\<forall>c\<in>set yr. is_digit P c \<or> c = 32" using d by auto
  from peel_dir_m[OF m] obtain v1 s1 where
    1: "mo @ 47 # dy @ 47 # yr @ 44 # t = v1 @ s1" "\<forall>c\<in>set v1. 48 \<le> c \<and> c \<le> 57"
    "matcher (seq (chr 47 # dir_d P # chr 47 # dir_Y P # chr 44 # rs)) k s1 (g(''m'' \<mapsto> v1)) = Some x"
    by blast
  from peel_chr[OF 1(3)] obtain s2 where
    2: "s1 = 47 # s2"
    "matcher (seq (dir_d P # chr 47 # dir_Y P # chr 44 # rs)) k s2 (g(''m'' \<mapsto> v1)) = Some x"
    by blast
  have "47 \<notin> set v1" using 1(2) by auto
  with field_align[of v1 47 s2 mo "dy @ 47 # yr @ 44 # t"] 1(1) 2(1) digits_no_sep(1)[OF dm]
  have e1: "v1 = mo" "s2 = dy @ 47 # yr @ 44 # t" by auto
  from peel_dir_d[OF 2(2)] obtain v2 s3 where
    3: "s2 = v2 @ s3" "\<forall>c\<in>set v2. is_digit P c \<or> c = 32"
    "matcher (seq (chr 47 # dir_Y P # chr 44 # rs)) k s3 (g(''m'' \<mapsto> v1, ''d'' \<mapsto> v2)) = Some x"
    by blast
  from peel_chr[OF 3(3)] obtain s4 where
    4: "s3 = 47 # s4"
    "matcher (seq (dir_Y P # chr 44 # rs)) k s4 (g(''m'' \<mapsto> v1, ''d'' \<mapsto> v2)) = Some x"
    by blast
  from field_align[of v2 47 s4 dy "yr @ 44 # t"] 3(1) 4(1) e1(2)
    digits_no_sep(1)[OF 3(2)] digits_no_sep(1)[OF dd]
  have e2: "v2 = dy" "s4 = yr @ 44 # t" by auto
  from peel_dir_Y[OF 4(2)] obtain v3 s5 where
    5: "s4 = v3 @ s5" "\<forall>c\<in>set v3. is_digit P c"
    "matcher (seq (chr 44 # rs)) k s5 (g(''m'' \<mapsto> v1, ''d'' \<mapsto> v2, ''Y'' \<mapsto> v3)) = Some x"
    by blast
  from peel_chr[OF 5(3)] obtain s6 where
    6: "s5 = 44 # s6"
    "matcher (seq rs) k s6 (g(''m'' \<mapsto> v1, ''d'' \<mapsto> v2, ''Y'' \<mapsto> v3)) = Some x"
    by blast
  have "\<forall>c\<in>set v3. is_digit P c \<or> c = 32" using 5(2) by auto
  from field_align[of v3 44 s6 yr t] 5(1) 6(1) e2(2)
    digits_no_sep(2)[OF this] digits_no_sep(2)[OF dy]
  have e3: "v3 = yr" "s6 = t" by auto
  show ?thesis using 6(2) e1(1) e2(1) e3 by simp
qed

lemma time_24:
  assumes m: "matcher (seq [Many is_space 1 None, dir_H P, chr 58, dir_M P])
                (\<lambda>s' g'. Some (g', s')) (32 # hh @ 58 # mi) g = Some (found, [])"
    and d: "\<forall>c\<in>set (hh @ mi). is_digit P c"
    and uc: "unicode_consistent P"
  shows "found = g(''H'' \<mapsto> hh, ''M'' \<mapsto> mi)"
proof -
  have ns: "\<And>c. is_digit P c \<Longrightarrow> \<not> is_space c" using uc by (auto simp: unicode_consistent_def)
  from peel_spaces[OF m] obtain w s1 where
    1: "32 # hh @ 58 # mi = w @ s1" "w \<noteq> []" "\<forall>c\<in>set w. is_space c"
    "matcher (seq [dir_H P, chr 58, dir_M P]) (\<lambda>s' g'. Some (g', s')) s1 g = Some (found, [])"
    by blast
  from peel_dir_H[OF 1(4)] obtain v1 s2 where
    2: "s1 = v1 @ s2" "v1 \<noteq> []" "\<forall>c\<in>set v1. is_digit P c"
    "matcher (seq [chr 58, dir_M P]) (\<lambda>s' g'. Some (g', s')) s2 (g(''H'' \<mapsto> v1)) = Some (found, [])"
    by blast
  from peel_chr[OF 2(4)] obtain s3 where
    3: "s2 = 58 # s3"
    "matcher (seq [dir_M P]) (\<lambda>s' g'. Some (g', s')) s3 (g(''H'' \<mapsto> v1)) = Some (found, [])"
    by blast
  from peel_dir_M[OF 3(2)] obtain v2 s4 where
    4: "s3 = v2 @ s4"
    "matcher (seq []) (\<lambda>s' g'. Some (g', s')) s4 (g(''H'' \<mapsto> v1, ''M'' \<mapsto> v2)) = Some (found, [])"
    by blast
  from peel_end[OF 4(2)] have 5: "found = g(''H'' \<mapsto> v1, ''M'' \<mapsto> v2)" "s4 = []" by auto
  have hs1: "\<not> is_space (hd s1)" using 2(1,2,3) ns by (cases v1) auto
  have hhm: "\<not> is_space (hd (hh @ 58 # mi))" using d ns by (cases hh) (auto simp: is_space_def)
  have "w @ s1 = [32] @ (hh @ 58 # mi)" using 1(1) by simp
  from align[OF this, of "\<lambda>c. \<not> is_space c"] 1(3) hs1 hhm
  have e1: "w = [32]" "s1 = hh @ 58 # mi" by (auto simp: is_space_def)
  have "58 \<notin> set v1" "58 \<notin> set hh" using 2(3) d digit_not_sep(3)[of P] by auto
  from field_align[of v1 58 s3 hh mi] this e1(2) 2(1) 3(1)
  have e2: "v1 = hh" "s3 = mi" by auto
  show ?thesis using 5 e2 4(1) by simp
qed

lemma time_12:
  assumes m: "matcher (seq [Many is_space 1 None, dir_I, chr 58, dir_M P, Many is_space 1 None, dir_p])
                (\<lambda>s' g'. Some (g', s')) (32 # hh @ 58 # mi @ 32 # a) g = Some (found, [])"
    and d: "\<forall>c\<in>set (hh @ mi). is_digit P c"
    and a: "a \<noteq> []" "\<not> is_space (hd a)"
    and uc: "unicode_consistent P"
  shows "found = g(''I'' \<mapsto> hh, ''M'' \<mapsto> mi, ''p'' \<mapsto> a)"
proof -
  have ns: "\<And>c. is_digit P c \<Longrightarrow> \<not> is_space c" using uc by (auto simp: unicode_consistent_def)
  let ?k = "\<lambda>s' (g' :: groups). Some (g', s')"
  from peel_spaces[OF m] obtain w s1 where
    1: "32 # hh @ 58 # mi @ 32 # a = w @ s1" "w \<noteq> []" "\<forall>c\<in>set w. is_space c"
    "matcher (seq [dir_I, chr 58, dir_M P, Many is_space 1 None, dir_p]) ?k s1 g = Some (found, [])"
    by blast
  from peel_dir_I[OF 1(4)] obtain v1 s2 where
    2: "s1 = v1 @ s2" "v1 \<noteq> []" "\<forall>c\<in>set v1. 48 \<le> c \<and> c \<le> 57"
    "matcher (seq [chr 58, dir_M P, Many is_space 1 None, dir_p]) ?k s2 (g(''I'' \<mapsto> v1))
       = Some (found, [])"
    by blast
  from peel_chr[OF 2(4)] obtain s3 where
    3: "s2 = 58 # s3"
    "matcher (seq [dir_M P, Many is_space 1 None, dir_p]) ?k s3 (g(''I'' \<mapsto> v1)) = Some (found, [])"
    by blast
  from peel_dir_M[OF 3(2)] obtain v2 s4 where
    4: "s3 = v2 @ s4" "\<forall>c\<in>set v2. is_digit P c"
    "matcher (seq [Many is_space 1 None, dir_p]) ?k s4 (g(''I'' \<mapsto> v1, ''M'' \<mapsto> v2))
       = Some (found, [])"
    by blast
  from peel_spaces[OF 4(3)] obtain w2 s5 where
    5: "s4 = w2 @ s5" "w2 \<noteq> []" "\<forall>c\<in>set w2. is_space c"
    "matcher (seq [dir_p]) ?k s5 (g(''I'' \<mapsto> v1, ''M'' \<mapsto> v2)) = Some (found, [])"
    by blast
  from peel_dir_p[OF 5(4)] obtain v3 s6 where
    6: "s5 = v3 @ s6" "v3 \<noteq> []" "\<not> is_space (hd v3)"
    "matcher (seq []) ?k s6 (g(''I'' \<mapsto> v1, ''M'' \<mapsto> v2, ''p'' \<mapsto> v3)) = Some (found, [])"
    by blast
  from peel_end[OF 6(4)] have 7: "found = g(''I'' \<mapsto> v1, ''M'' \<mapsto> v2, ''p'' \<mapsto> v3)" "s6 = []"
    by auto
  have hs1: "\<not> is_space (hd s1)" using 2(1,2,3) by (cases v1) (auto simp: is_space_def)
  have hhm: "\<not> is_space (hd (hh @ 58 # mi @ 32 # a))"
    using d ns by (cases hh) (auto simp: is_space_def)
  have "w @ s1 = [32] @ (hh @ 58 # mi @ 32 # a)" using 1(1) by simp
  from align[OF this, of "\<lambda>c. \<not> is_space c"] 1(3) hs1 hhm
  have e1: "w = [32]" "s1 = hh @ 58 # mi @ 32 # a" by (auto simp: is_space_def)
  have "58 \<notin> set v1" "58 \<notin> set hh" using 2(3) d digit_not_sep(3)[of P] by auto
  from field_align[of v1 58 s3 hh "mi @ 32 # a"] this e1(2) 2(1) 3(1)
  have e2: "v1 = hh" "s3 = mi @ 32 # a" by auto
  have "v2 @ s4 = mi @ (32 # a)" using e2(2) 4(1) by simp
  moreover have "is_space (hd s4)" using 5(1,2,3) by (cases w2) auto
  moreover have "s4 \<noteq> []" using 5(1,2) by simp
  ultimately have e3: "v2 = mi" "s4 = 32 # a"
    using align[of v2 s4 mi "32 # a" is_space] 4(2) d ns by (auto simp: is_space_def)
  have "w2 @ s5 = [32] @ a" using e3(2) 5(1) by simp
  moreover have "\<not> is_space (hd s5)" using 6(1,2,3) by (cases v3) auto
  ultimately have e4: "w2 = [32]" "s5 = a"
    using align[of w2 s5 "[32]" a "\<lambda>c. \<not> is_space c"] 5(3) a by (auto simp: is_space_def)
  show ?thesis using 7 e2(1) e3(1) e4(2) 6(1) by simp
qed

lemma split_on_no_sep: "sep \<notin> set a \<Longrightarrow> split_on sep acc a = [acc @ a]"
  by (induction a arbitrary: acc) auto

lemma split_on_field:
  "sep \<notin> set a \<Longrightarrow> split_on sep acc (a @ sep # r) = (acc @ a) # split_on sep [] r"
  by (induction a arbitrary: acc) auto

lemma split_date:
  assumes "\<forall>c\<in>set (mo @ dy @ yr). is_digit P c"
  shows "split_on 47 [] (mo @ [47] @ dy @ [47] @ yr) = [mo, dy, yr]"
proof -
  have "47 \<notin> set mo" "47 \<notin> set dy" "47 \<notin> set yr" using assms digit_not_sep(1)[of P] by auto
  then show ?thesis by (simp add: split_on_field split_on_no_sep)
qed

lemma strptime_24_fields:
  assumes uc: "unicode_consistent P"
    and d: "\<forall>c\<in>set (mo @ dy @ yr @ hh @ mi). is_digit P c"
    and s: "strptime P (mo @ [47] @ dy @ [47] @ yr @ [44, 32] @ hh @ [58] @ mi) (format_24 P) = Inr dt"
  shows "year dt = int_of_digits P yr \<and> month dt = int_of_digits P mo
    \<and> day dt = int_of_digits P dy \<and> hour dt = int_of_digits P hh
    \<and> minute dt = int_of_digits P mi"
proof -
  let ?S = "mo @ 47 # dy @ 47 # yr @ 44 # 32 # hh @ 58 # mi"
  have S: "mo @ [47] @ dy @ [47] @ yr @ [44, 32] @ hh @ [58] @ mi = ?S" by simp
  have d3: "\<forall>c\<in>set (mo @ dy @ yr). is_digit P c" and d2: "\<forall>c\<in>set (hh @ mi). is_digit P c"
    using d by auto
  obtain found where re: "re_match (format_24 P) ?S = Some (found, [])"
    using s unfolding S strptime_def by (auto split: option.splits if_splits)
  have "matcher (seq (dir_m # chr 47 # dir_d P # chr 47 # dir_Y P # chr 44
          # [Many is_space 1 None, dir_H P, chr 58, dir_M P]))
        (\<lambda>s' g'. Some (g', s')) ?S Map.empty = Some (found, [])"
    using re by (simp only: re_match_def format_24_def)
  note step = date_prefix[OF this d3]
  have f: "found = [''m'' \<mapsto> mo, ''d'' \<mapsto> dy, ''Y'' \<mapsto> yr, ''H'' \<mapsto> hh, ''M'' \<mapsto> mi]"
    by (rule time_24[OF step d2 uc])
  have "make_datetime (int_of_digits P yr) (int_of_digits P mo) (int_of_digits P dy)
          (int_of_digits P hh) (int_of_digits P mi) = Inr dt"
    using s unfolding S strptime_def re by (simp add: f group_int_def Let_def)
  then show ?thesis by (auto simp: make_datetime_def Let_def split: if_splits)
qed

lemma strptime_12_fields:
  assumes uc: "unicode_consistent P"
    and d: "\<forall>c\<in>set (mo @ dy @ yr @ hh @ mi). is_digit P c"
    and a: "a = lit ''AM'' \<or> a = lit ''PM''"
    and s: "strptime P (mo @ [47] @ dy @ [47] @ yr @ [44, 32] @ hh @ [58] @ mi @ [32] @ a)
              (format_12 P) = Inr dt"
  shows "year dt = int_of_digits P yr \<and> month dt = int_of_digits P mo
    \<and> day dt = int_of_digits P dy \<and> hour dt = hour_12 (int_of_digits P hh) (ascii_lower a)
    \<and> minute dt = int_of_digits P mi"
proof -
  let ?S = "mo @ 47 # dy @ 47 # yr @ 44 # 32 # hh @ 58 # mi @ 32 # a"
  have S: "mo @ [47] @ dy @ [47] @ yr @ [44, 32] @ hh @ [58] @ mi @ [32] @ a = ?S" by simp
  have d3: "\<forall>c\<in>set (mo @ dy @ yr). is_digit P c" and d2: "\<forall>c\<in>set (hh @ mi). is_digit P c"
    using d by auto
  have an: "a \<noteq> []" "\<not> is_space (hd a)" using a by (auto simp: lit_def is_space_def)
  obtain found where re: "re_match (format_12 P) ?S = Some (found, [])"
    using s unfolding S strptime_def by (auto split: option.splits if_splits)
  have "matcher (seq (dir_m # chr 47 # dir_d P # chr 47 # dir_Y P # chr 44
          # [Many is_space 1 None, dir_I, chr 58, dir_M P, Many is_space 1 None, dir_p]))
        (\<lambda>s' g'. Some (g', s')) ?S Map.empty = Some (found, [])"
    using re by (simp only: re_match_def format_12_def)
  note step = date_prefix[OF this d3]
  have f: "found = [''m'' \<mapsto> mo, ''d'' \<mapsto> dy, ''Y'' \<mapsto> yr, ''I'' \<mapsto> hh, ''M'' \<mapsto> mi, ''p'' \<mapsto> a]"
    by (rule time_12[OF step d2 an uc])
  have "make_datetime (int_of_digits P yr) (int_of_digits P mo) (int_of_digits P dy)
          (hour_12 (int_of_digits P hh) (ascii_lower a)) (int_of_digits P mi) = Inr dt"
    using s unfolding S strptime_def re by (simp add: f group_int_def Let_def)
  then show ?thesis by (auto simp: make_datetime_def Let_def split: if_splits)
qed

lemma int_of_digits_20:
  assumes "length yr = 2"
  shows "int_of_digits P (lit ''20'' @ yr) = 2000 + int_of_digits P yr"
proof -
  obtain c1 c2 where "yr = [c1, c2]"
    using assms by (metis (no_types, opaque_lifting) Suc_length_conv length_0_conv
        numeral_2_eq_2)
  then show ?thesis by (simp add: int_of_digits_def digit_value_def lit_def)
qed

lemma hour_12_am: "hour_12 h (ascii_lower (lit ''AM'')) = (if h = 12 then 0 else h)"
  by (simp add: hour_12_def ascii_lower_def lit_def)

lemma hour_12_pm: "hour_12 h (ascii_lower (lit ''PM'')) = (if h = 12 then 12 else h + 12)"
  by (simp add: hour_12_def ascii_lower_def lit_def)

lemma parse_timestamp_fields:
  assumes uc: "unicode_consistent P"
    and d: "\<forall>c\<in>set (mo @ dy @ yr @ hh @ mi). is_digit P c"
    and a: "ampm = None \<or> ampm = Some (lit ''AM'') \<or> ampm = Some (lit ''PM'')"
    and p: "parse_timestamp P (mo @ [47] @ dy @ [47] @ yr) (hh @ [58] @ mi) ampm = Inr dt"
  shows "year dt = (if length yr = 2 then 2000 + int_of_digits P yr else int_of_digits P yr)
    \<and> month dt = int_of_digits P mo \<and> day dt = int_of_digits P dy
    \<and> minute dt = int_of_digits P mi
    \<and> hour dt = (let h = int_of_digits P hh
                 in if ampm = Some (lit ''AM'') then (if h = 12 then 0 else h)
                    else if ampm = Some (lit ''PM'') then (if h = 12 then 12 else h + 12)
                    else h)"
proof -
  define yr' where "yr' = (if length yr = 2 then lit ''20'' @ yr else yr)"
  have "split_on 47 [] (mo @ [47] @ dy @ [47] @ yr) = [mo, dy, yr]"
    using d by (intro split_date[of _ _ _ P]) auto
  then have sp: "split_on 47 [] (mo @ 47 # dy @ 47 # yr) = [mo, dy, yr]" by simp
  have d': "\<forall>c\<in>set (mo @ dy @ yr' @ hh @ mi). is_digit P c"
    using d by (auto simp: yr'_def lit_def is_digit_def)
  have y: "int_of_digits P yr' = (if length yr = 2 then 2000 + int_of_digits P yr else int_of_digits P yr)"
    by (simp add: yr'_def int_of_digits_20)
  have ne: "lit ''AM'' \<noteq> []" "lit ''PM'' \<noteq> []" "lit ''AM'' \<noteq> lit ''PM''" by (simp_all add: lit_def)
  from a show ?thesis
  proof (elim disjE)
    assume n: "ampm = None"
    then have "strptime P (mo @ [47] @ dy @ [47] @ yr' @ [44, 32] @ hh @ [58] @ mi) (format_24 P) = Inr dt"
      using p by (simp add: parse_timestamp_def sp yr'_def Let_def)
    from strptime_24_fields[OF uc d' this] show ?thesis using n y by (simp add: Let_def)
  next
    assume n: "ampm = Some (lit ''AM'')"
    then have "strptime P (mo @ [47] @ dy @ [47] @ yr' @ [44, 32] @ hh @ [58] @ mi @ [32] @ lit ''AM'')
        (format_12 P) = Inr dt"
      using p ne by (simp add: parse_timestamp_def sp yr'_def Let_def)
    from strptime_12_fields[OF uc d' _ this] show ?thesis using n y ne
      by (simp add: Let_def hour_12_am)
  next
    assume n: "ampm = Some (lit ''PM'')"
    then have "strptime P (mo @ [47] @ dy @ [47] @ yr' @ [44, 32] @ hh @ [58] @ mi @ [32] @ lit ''PM'')
        (format_12 P) = Inr dt"
      using p ne by (simp add: parse_timestamp_def sp yr'_def Let_def)
    from strptime_12_fields[OF uc d' _ this] show ?thesis using n y ne
      by (simp add: Let_def hour_12_pm)
  qed
qed

lemma ascii_consistent: "unicode_consistent ascii_platform"
  by (auto simp: unicode_consistent_def is_digit_def is_space_def ascii_platform_def)

lemma ts_scenario_d:
  "parse_timestamp ascii_platform (lit ''5/1/23'') (lit ''1:00'') (Some (lit ''PM''))
     = Inr \<lparr> year = 2023, month = 5, day = 1, hour = 13, minute = 0 \<rparr>"
  by (simp add: rx_eval strptime_eval lit_def)

lemma ts_midnight:
  "parse_timestamp ascii_platform (lit ''1/1/24'') (lit ''12:00'') (Some (lit ''AM''))
     = Inr \<lparr> year = 2024, month = 1, day = 1, hour = 0, minute = 0 \<rparr>"
  by (simp add: rx_eval strptime_eval lit_def)

lemma ts_noon:
  "parse_timestamp ascii_platform (lit ''1/1/24'') (lit ''12:00'') (Some (lit ''PM''))
     = Inr \<lparr> year = 2024, month = 1, day = 1, hour = 12, minute = 0 \<rparr>"
  by (simp add: rx_eval strptime_eval lit_def)

lemma ts_24_hour:
  "parse_timestamp ascii_platform (lit ''1/1/2024'') (lit ''23:15'') None
     = Inr \<lparr> year = 2024, month = 1, day = 1, hour = 23, minute = 15 \<rparr>"
  by (simp add: rx_eval strptime_eval lit_def)

lemma match_scenario_d:
  "re_match (MESSAGE_RE ascii_platform) (lit ''5/1/23, 1:00 PM - X: hi'')
     = Some ([''date'' \<mapsto> lit ''5/1/23'', ''time'' \<mapsto> lit ''1:00'', ''ampm'' \<mapsto> lit ''PM'',
              ''sender'' \<mapsto> lit ''X'', ''text'' \<mapsto> lit ''hi''], [])"
  by (simp add: rx_eval lit_def)

text \<open>
  C9. The date and the time of a matched header are \<open>M/D/Y\<close> and \<open>H:MM\<close> in
  digits, with an optional marker AM or PM, and when they parse to a timestamp, that
  timestamp has the month, the day and the minute as written, the year \<open>2000 + Y\<close>
  for a year of two digits, and the hour by the 12-hour clock when the marker is present
  (12 AM is hour 0, 12 PM is hour 12, PM adds 12 to the other hours) and as written
  when it is absent.
\<close>

theorem header_timestamp_rules:
  assumes "unicode_consistent P" and "re_match (MESSAGE_RE P) line = Some (m, rest)"
  shows "\<exists>mo dy yr hh mi.
      m ''date'' = Some (mo @ [47] @ dy @ [47] @ yr) \<and> m ''time'' = Some (hh @ [58] @ mi)
      \<and> (m ''ampm'' = None \<or> m ''ampm'' = Some (lit ''AM'') \<or> m ''ampm'' = Some (lit ''PM''))
      \<and> (\<forall>dt. parse_timestamp P (mo @ [47] @ dy @ [47] @ yr) (hh @ [58] @ mi) (m ''ampm'') = Inr dt
            \<longrightarrow> year dt = (if length yr = 2 then 2000 + int_of_digits P yr else int_of_digits P yr)
              \<and> month dt = int_of_digits P mo \<and> day dt = int_of_digits P dy
              \<and> minute dt = int_of_digits P mi
              \<and> hour dt = (let h = int_of_digits P hh
                 in if m ''ampm'' = Some (lit ''AM'') then (if h = 12 then 0 else h)
                    else if m ''ampm'' = Some (lit ''PM'') then (if h = 12 then 12 else h + 12)
                    else h))"
proof -
  from header_groups[OF assms(2)] obtain mo dy yr hh mi where
    g: "m ''date'' = Some (mo @ [47] @ dy @ [47] @ yr)" "m ''time'' = Some (hh @ [58] @ mi)"
    "\<forall>c\<in>set (mo @ dy @ yr @ hh @ mi). is_digit P c"
    "m ''ampm'' = None \<or> m ''ampm'' = Some (lit ''AM'') \<or> m ''ampm'' = Some (lit ''PM'')"
    by blast
  have "\<forall>dt. parse_timestamp P (mo @ [47] @ dy @ [47] @ yr) (hh @ [58] @ mi) (m ''ampm'') = Inr dt
            \<longrightarrow> year dt = (if length yr = 2 then 2000 + int_of_digits P yr else int_of_digits P yr)
              \<and> month dt = int_of_digits P mo \<and> day dt = int_of_digits P dy
              \<and> minute dt = int_of_digits P mi
              \<and> hour dt = (let h = int_of_digits P hh
                 in if m ''ampm'' = Some (lit ''AM'') then (if h = 12 then 0 else h)
                    else if m ''ampm'' = Some (lit ''PM'') then (if h = 12 then 12 else h + 12)
                    else h)"
    using parse_timestamp_fields[OF assms(1) g(3) g(4)] by blast
  with g(1,2,4) show ?thesis
    by (intro exI[of _ mo] exI[of _ dy] exI[of _ yr] exI[of _ hh] exI[of _ mi]) blast
qed

theorem header_timestamp_rules_witness:
  "unicode_consistent ascii_platform
   \<and> re_match (MESSAGE_RE ascii_platform) (lit ''5/1/23, 1:00 PM - X: hi'')
     = Some ([''date'' \<mapsto> lit ''5/1/23'', ''time'' \<mapsto> lit ''1:00'', ''ampm'' \<mapsto> lit ''PM'',
              ''sender'' \<mapsto> lit ''X'', ''text'' \<mapsto> lit ''hi''], [])
   \<and> parse_timestamp ascii_platform (lit ''5/1/23'') (lit ''1:00'') (Some (lit ''PM''))
     = Inr \<lparr> year = 2023, month = 5, day = 1, hour = 13, minute = 0 \<rparr>
   \<and> parse_timestamp ascii_platform (lit ''1/1/24'') (lit ''12:00'') (Some (lit ''AM''))
     = Inr \<lparr> year = 2024, month = 1, day = 1, hour = 0, minute = 0 \<rparr>
   \<and> parse_timestamp ascii_platform (lit ''1/1/24'') (lit ''12:00'') (Some (lit ''PM''))
     = Inr \<lparr> year = 2024, month = 1, day = 1, hour = 12, minute = 0 \<rparr>
   \<and> parse_timestamp ascii_platform (lit ''1/1/2024'') (lit ''23:15'') None
     = Inr \<lparr> year = 2024, month = 1, day = 1, hour = 23, minute = 15 \<rparr>"
  using header_timestamp_rules[OF ascii_consistent match_scenario_d]
    ascii_consistent match_scenario_d ts_scenario_d ts_midnight ts_noon ts_24_hour
  by blast

end
